theory Spec2Isabelle
  imports Main "HOL-Library.Sublist"
begin

section \<open>Event keys\<close>

text \<open>
  Event names are JavaScript strings; they are modelled as \<open>string\<close>, that is as lists of
  code points below 256. \<open>String.prototype.trim\<close> removes white space and line terminators
  from both ends; below 256 these are TAB, LF, VT, FF, CR, SPACE and NBSP.
\<close>

definition isWhiteSpace :: "char \<Rightarrow> bool" where
  "isWhiteSpace c \<longleftrightarrow>
     c = CHR 0x09 \<or> c = CHR 0x0A \<or> c = CHR 0x0B \<or> c = CHR 0x0C \<or> c = CHR 0x0D \<or>
     c = CHR 0x20 \<or> c = CHR 0xA0"

definition trim :: "string \<Rightarrow> string" where
  "trim s = rev (dropWhile isWhiteSpace (rev (dropWhile isWhiteSpace s)))"

section \<open>The registry\<close>

text \<open>
  \<open>listeners : Map<string, Set<NexusEventListener>>\<close>. A listener is an object and is
  compared by identity, so it is modelled by its identity \<open>lid\<close>. A \<open>Set\<close> is a mutable
  object that the map holds by reference: \<open>emit\<close> keeps such references in local variables
  while handlers run and may call \<open>register\<close>. The model therefore has an explicit store:
  the map sends a key to the address of its \<open>Set\<close> object, and \<open>heap\<close> gives the contents
  of the object at an address, in insertion order (the iteration order of a \<open>Set\<close>).
\<close>

type_synonym lid = nat
type_synonym addr = nat

record manager =
  listeners :: "string \<rightharpoonup> addr"
  heap :: "addr \<Rightarrow> lid list"
  fresh :: addr

text \<open>\<open>new NexusEventManager()\<close>, which only \<open>getInstance\<close> can call: an empty map, no
  \<open>Set\<close> object allocated yet.\<close>

definition new_manager :: manager where
  "new_manager = \<lparr> listeners = Map.empty, heap = (\<lambda>_. []), fresh = 0 \<rparr>"

text \<open>\<open>Set.prototype.add\<close>: no effect when the element is present, else appended.\<close>

definition set_add :: "lid list \<Rightarrow> lid \<Rightarrow> lid list" where
  "set_add xs l = (if l \<in> set xs then xs else xs @ [l])"

text \<open>
  \<open>register(eventName, listener)\<close>: the \<open>Set\<close> found under the trimmed name, or a newly
  allocated empty one, gets the listener added in place and is stored under the name.
  The comparison with \<open>maxListeners\<close> only writes to the console and is left out.
  No statement of the body can throw, so the model has no error result.
\<close>

definition register :: "manager \<Rightarrow> string \<Rightarrow> lid \<Rightarrow> manager" where
  "register m eventName listener =
     (let nm = trim eventName in
      case listeners m nm of
        Some a \<Rightarrow>
          m\<lparr> heap := (heap m)(a := set_add (heap m a) listener),
             listeners := (listeners m)(nm \<mapsto> a) \<rparr>
      | None \<Rightarrow>
          (let a = fresh m in
           m\<lparr> fresh := Suc a,
              heap := (heap m)(a := set_add [] listener),
              listeners := (listeners m)(nm \<mapsto> a) \<rparr>))"

text \<open>The listeners stored under a (trimmed) key, in insertion order; empty when the key is absent.\<close>

definition members :: "manager \<Rightarrow> string \<Rightarrow> lid list" where
  "members m k = (case listeners m k of None \<Rightarrow> [] | Some a \<Rightarrow> heap m a)"

text \<open>
  The constructor is private and \<open>register\<close> is the only method that writes to the map, so
  every registry that exists is the result of a sequence of \<open>register\<close> calls on the
  initial instance.
\<close>

definition registers :: "manager \<Rightarrow> (string \<times> lid) list \<Rightarrow> manager" where
  "registers m rs = foldl (\<lambda>m' (k, l). register m' k l) m rs"

definition build :: "(string \<times> lid) list \<Rightarrow> manager" where
  "build rs = registers new_manager rs"

text \<open>Well-formedness of the store: distinct keys own distinct allocated \<open>Set\<close> objects,
  and a \<open>Set\<close> holds no listener twice.\<close>

definition wf_manager :: "manager \<Rightarrow> bool" where
  "wf_manager m \<longleftrightarrow>
     (\<forall>k a. listeners m k = Some a \<longrightarrow> a < fresh m) \<and>
     (\<forall>k k' a. listeners m k = Some a \<longrightarrow> listeners m k' = Some a \<longrightarrow> k = k') \<and>
     (\<forall>a. distinct (heap m a))"

section \<open>Events, failures and handlers\<close>

record 'p NexusEvent =
  name :: string
  payload :: 'p

text \<open>
  What a \<open>catch\<close> clause can receive: the two errors that \<open>withTimeout\<close> creates,
  \<open>new Error('Timeout')\<close> and \<open>new Error('Aborted')\<close>, and whatever a handler throws
  or rejects with.
\<close>

datatype error = Timeout | Aborted | Thrown string

datatype completion = Returns | Throws error

text \<open>A promise settles as fulfilled or rejected; \<open>settlement option\<close> is the fate of a
  promise, \<open>None\<close> for one that never settles.\<close>

datatype settlement = Fulfilled | Rejected error

text \<open>What can happen to a promise wrapped by \<open>withTimeout\<close>: the wrapped promise
  settles, the timer fires, the signal dispatches its \<open>abort\<close> event.\<close>

datatype wt_event = Settles settlement | TimerFires | AbortFires

text \<open>
  A handler is a caller-supplied function. One invocation is described by what it can
  do that the dispatcher observes: the \<open>register\<close> calls it makes on the manager while it
  runs, whether it returns or throws, and, for \<open>emitAsync\<close>, the order in which the
  promise it returned settles, the timer fires and the signal aborts.
  \<open>handler env l i\<close> is the behaviour of listener \<open>l\<close> when it is the invocation number
  \<open>i\<close> of a dispatch.

  \<open>onError env\<close> is the static \<open>onError\<close> sink, \<open>None\<close> when it is not set. The sink is
  a caller-supplied function as well: \<open>f e nm i\<close> describes its call with the error \<open>e\<close>
  and \<open>{ event: nm, listenerIndex: i }\<close> by the \<open>register\<close> calls it makes and by
  whether it returns or throws; what it returns is discarded, so \<open>race\<close> is not read.
  The console output of debug mode is not modelled.
\<close>

record behaviour =
  calls :: "(string \<times> lid) list"
  completion :: completion
  race :: "wt_event list"

record env =
  handler :: "lid \<Rightarrow> nat \<Rightarrow> behaviour"
  onError :: "(error \<Rightarrow> string \<Rightarrow> nat \<Rightarrow> behaviour) option"

type_synonym report = "error \<times> string \<times> nat"

text \<open>The state a dispatch works on: the manager, the handlers invoked so far in order,
  the calls made to the sink so far in order. \<open>emit\<close> adds its counter \<open>idx\<close>.\<close>

record dispatch =
  mgr :: manager
  invoked :: "lid list"
  reports :: "report list"

record emit_state = dispatch +
  idx :: nat

section \<open>Control flow\<close>

text \<open>A statement run in a state either completes normally or raises; both leave a state.\<close>

definition try_catch_finally ::
  "('s \<Rightarrow> error option \<times> 's) \<Rightarrow> (error \<Rightarrow> 's \<Rightarrow> error option \<times> 's) \<Rightarrow> ('s \<Rightarrow> 's) \<Rightarrow>
   's \<Rightarrow> error option \<times> 's" where
  "try_catch_finally body catch fin s =
     (case body s of
        (None, s1) \<Rightarrow> (None, fin s1)
      | (Some e, s1) \<Rightarrow> (case catch e s1 of (r, s2) \<Rightarrow> (r, fin s2)))"

fun for_of :: "'a list \<Rightarrow> ('a \<Rightarrow> 's \<Rightarrow> error option \<times> 's) \<Rightarrow> 's \<Rightarrow> error option \<times> 's" where
  "for_of [] f s = (None, s)"
| "for_of (x # xs) f s =
     (case f x s of
        (None, s') \<Rightarrow> for_of xs f s'
      | (Some e, s') \<Rightarrow> (Some e, s'))"

text \<open>\<open>listener.handler(event)\<close> as invocation number \<open>i\<close>.\<close>

definition call_handler ::
  "env \<Rightarrow> lid \<Rightarrow> nat \<Rightarrow> 'a dispatch_scheme \<Rightarrow> error option \<times> 'a dispatch_scheme" where
  "call_handler env l i s =
     (let b = handler env l i;
          s' = s\<lparr> mgr := registers (mgr s) (calls b), invoked := invoked s @ [l] \<rparr>
      in (case completion b of Returns \<Rightarrow> None | Throws e \<Rightarrow> Some e, s'))"

text \<open>
  \<open>NexusEventManager.onError?.(e, { event: name, listenerIndex: idx })\<close>: nothing happens
  when no sink is set; otherwise the sink is called, the call is recorded, and what the
  sink throws is thrown by this statement.
\<close>

definition onError_call ::
  "env \<Rightarrow> error \<Rightarrow> string \<Rightarrow> nat \<Rightarrow> 'a dispatch_scheme \<Rightarrow> error option \<times> 'a dispatch_scheme" where
  "onError_call env e nm i s =
     (case onError env of
        None \<Rightarrow> (None, s)
      | Some f \<Rightarrow>
          (let b = f e nm i;
               s' = s\<lparr> mgr := registers (mgr s) (calls b), reports := reports s @ [(e, nm, i)] \<rparr>
           in (case completion b of Returns \<Rightarrow> None | Throws x \<Rightarrow> Some x, s')))"

section \<open>Synchronous emission\<close>

text \<open>
  The body of the \<open>for\<close> loop of \<open>run\<close>: \<open>try { handler } catch { sink } finally { idx++ }\<close>.
  The sink is called inside the \<open>catch\<close> clause with no guard of its own: an error it
  throws leaves the clause, and after \<open>idx++\<close> the loop, \<open>run\<close> and \<open>emit\<close>.
\<close>

definition iteration :: "env \<Rightarrow> string \<Rightarrow> lid \<Rightarrow> emit_state \<Rightarrow> error option \<times> emit_state" where
  "iteration env nm l =
     try_catch_finally
       (\<lambda>s. call_handler env l (idx s) s)
       (\<lambda>e s. onError_call env e nm (idx s) s)
       (\<lambda>s. s\<lparr> idx := idx s + 1 \<rparr>)"

text \<open>
  The closure \<open>run\<close>. Its argument is a reference to a \<open>Set\<close> object or \<open>undefined\<close>;
  \<open>Array.from(set)\<close> copies the contents the object has when \<open>run\<close> is called.
\<close>

definition run :: "env \<Rightarrow> string \<Rightarrow> addr option \<Rightarrow> emit_state \<Rightarrow> error option \<times> emit_state" where
  "run env nm st s =
     (case st of
        None \<Rightarrow> (None, s)
      | Some a \<Rightarrow>
          if heap (mgr s) a = [] then (None, s)
          else for_of (heap (mgr s) a) (iteration env nm) s)"

definition emit :: "env \<Rightarrow> manager \<Rightarrow> 'p NexusEvent \<Rightarrow> error option \<times> emit_state" where
  "emit env m event =
     (let nm = trim (name event);
          specific = listeners m nm;
          wildcard = listeners m ''*'';
          s0 = \<lparr> mgr = m, invoked = [], reports = [], idx = 0 \<rparr>
      in case run env nm specific s0 of
           (Some e, s1) \<Rightarrow> (Some e, s1)
         | (None, s1) \<Rightarrow>
             (case wildcard of
                Some a \<Rightarrow> run env nm wildcard s1
              | None \<Rightarrow> (None, s1)))"

section \<open>The timeout and cancellation wrapper\<close>

text \<open>
  \<open>timeoutMs\<close> is a JavaScript number; the code only tests its truthiness and
  \<open>Number.isFinite\<close>. A finite value stands for any finite double of that sign.
\<close>

datatype number = Finite int | PosInfinity | NegInfinity | NaN

definition truthy :: "number option \<Rightarrow> bool" where
  "truthy t = (case t of
                 None \<Rightarrow> False
               | Some (Finite n) \<Rightarrow> n \<noteq> 0
               | Some NaN \<Rightarrow> False
               | Some _ \<Rightarrow> True)"

definition isFinite :: "number option \<Rightarrow> bool" where
  "isFinite t = (case t of Some (Finite n) \<Rightarrow> True | _ \<Rightarrow> False)"

text \<open>
  The promise returned by \<open>withTimeout\<close> together with the resources its executor
  acquired: a pending timer, the \<open>onAbort\<close> listener attached to the signal, the callbacks
  attached to the wrapped promise with \<open>then\<close>, and the settlement, if any.
\<close>

record wrapper =
  timer_armed :: bool
  abort_subscribed :: bool
  then_attached :: bool
  settled :: "settlement option"

text \<open>\<open>resolve\<close> and \<open>reject\<close> have no effect on a settled promise.\<close>

definition settle :: "settlement \<Rightarrow> wrapper \<Rightarrow> wrapper" where
  "settle x w = (case settled w of None \<Rightarrow> w\<lparr> settled := Some x \<rparr> | Some y \<Rightarrow> w)"

text \<open>\<open>onAbort\<close>: \<open>clearTimeout(timer); reject(new Error('Aborted'))\<close>.\<close>

definition onAbort :: "wrapper \<Rightarrow> wrapper" where
  "onAbort w = settle (Rejected Aborted) (w\<lparr> timer_armed := False \<rparr>)"

text \<open>
  \<open>withTimeout(p, timeoutMs, signal)\<close>; the signal is given by its \<open>aborted\<close> flag at the
  call. With neither a timeout nor a signal the result is \<open>p\<close> itself: nothing is acquired
  and the settlement of \<open>p\<close> is the settlement of the result. With a signal that is
  already aborted the executor returns from \<open>onAbort()\<close> at once: no timer is set and no
  callback is attached to \<open>p\<close>.
\<close>

definition withTimeout :: "number option \<Rightarrow> bool option \<Rightarrow> wrapper" where
  "withTimeout timeoutMs sig =
     (let w0 = \<lparr> timer_armed = False, abort_subscribed = False, then_attached = False,
                 settled = None \<rparr>
      in if \<not> truthy timeoutMs \<and> sig = None then w0\<lparr> then_attached := True \<rparr>
         else if sig = Some True then onAbort w0
         else
           (let w1 = (if sig \<noteq> None then w0\<lparr> abort_subscribed := True \<rparr> else w0);
                w2 = (if truthy timeoutMs \<and> isFinite timeoutMs
                      then w1\<lparr> timer_armed := True \<rparr> else w1)
            in w2\<lparr> then_attached := True \<rparr>))"

text \<open>
  The callbacks. Those given to \<open>p.then\<close> clear the timer, remove the listener from the
  signal and settle; the timer's callback rejects; the signal's listener is \<open>onAbort\<close>.
  A callback that is not installed does not run.
\<close>

fun deliver :: "wt_event \<Rightarrow> wrapper \<Rightarrow> wrapper" where
  "deliver (Settles x) w =
     (if then_attached w
      then settle x (w\<lparr> timer_armed := False, abort_subscribed := False, then_attached := False \<rparr>)
      else w)"
| "deliver TimerFires w =
     (if timer_armed w then settle (Rejected Timeout) (w\<lparr> timer_armed := False \<rparr>) else w)"
| "deliver AbortFires w =
     (if abort_subscribed w then onAbort w else w)"

text \<open>The race: events are delivered in order until the wrapper has settled.\<close>

fun run_race :: "wt_event list \<Rightarrow> wrapper \<Rightarrow> wrapper" where
  "run_race [] w = w"
| "run_race (e # es) w = (if settled w \<noteq> None then w else run_race es (deliver e w))"

section \<open>Asynchronous emission\<close>

text \<open>
  The options object. \<open>signal\<close> is an \<open>AbortSignal\<close>, an object outside the dispatcher whose
  \<open>aborted\<close> flag is read at each call of \<open>withTimeout\<close>: it is given as the value of the flag
  read for invocation number \<open>i\<close>. The declaration of the type \<open>Modes\<close> of \<open>mode\<close> is
  not among the sources (the README gives \<open>'sequential' | 'parallel'\<close>); the code only
  compares \<open>mode\<close> with the string \<open>'sequential'\<close>, so \<open>mode\<close> is any string.
\<close>

record EmitAsyncOptions =
  mode :: "string option"
  stopOnError :: "bool option"
  timeOutMs :: "number option"
  signal :: "(nat \<Rightarrow> bool) option"

text \<open>The destructuring defaults \<open>mode = 'sequential'\<close> and \<open>stopOnError = false\<close>.\<close>

definition mode_of :: "EmitAsyncOptions \<Rightarrow> string" where
  "mode_of opts = (case mode opts of None \<Rightarrow> ''sequential'' | Some md \<Rightarrow> md)"

definition stopOnError_of :: "EmitAsyncOptions \<Rightarrow> bool" where
  "stopOnError_of opts = (case stopOnError opts of None \<Rightarrow> False | Some b \<Rightarrow> b)"

text \<open>The array \<open>snapshot\<close>: copies of the two sets, made before any handler runs.\<close>

definition snapshot :: "manager \<Rightarrow> string \<Rightarrow> lid list" where
  "snapshot m nm =
     (case listeners m nm of Some a \<Rightarrow> heap m a | None \<Rightarrow> []) @
     (case listeners m ''*'' of Some a \<Rightarrow> heap m a | None \<Rightarrow> [])"

text \<open>The settlement of \<open>withTimeout(promise, timeOutMs, signal)\<close> for invocation \<open>i\<close> of \<open>l\<close>.\<close>

definition wrapped :: "env \<Rightarrow> EmitAsyncOptions \<Rightarrow> lid \<Rightarrow> nat \<Rightarrow> settlement option" where
  "wrapped env opts l i =
     settled (run_race (race (handler env l i))
                (withTimeout (timeOutMs opts) (map_option (\<lambda>f. f i) (signal opts))))"

text \<open>
  The \<open>catch\<close> clause of \<open>runOne\<close>; its result is the settlement of \<open>runOne\<close>'s promise.
  The sink is called first, unguarded: an error it throws rejects the promise, in every
  mode, and the test of \<open>mode\<close> and \<open>stopOnError\<close> is not reached.
\<close>

definition runOne_catch ::
  "env \<Rightarrow> EmitAsyncOptions \<Rightarrow> string \<Rightarrow> nat \<Rightarrow> error \<Rightarrow> dispatch \<Rightarrow> settlement \<times> dispatch" where
  "runOne_catch env opts nm i e s =
     (case onError_call env e nm i s of
        (Some x, s') \<Rightarrow> (Rejected x, s')
      | (None, s') \<Rightarrow>
          if mode_of opts = ''sequential'' \<and> stopOnError_of opts then (Rejected e, s')
          else (Fulfilled, s'))"

text \<open>
  \<open>runOne\<close> is an \<open>async\<close> function: a call runs its body up to the \<open>await\<close> and returns.
  A handler that throws is caught before the \<open>await\<close> is reached, and \<open>runOne\<close>'s promise is
  settled by the \<open>catch\<close> clause. Otherwise the call is suspended on the wrapped promise.
\<close>

datatype task = Done settlement | Awaiting "settlement option"

definition runOne_start ::
  "env \<Rightarrow> EmitAsyncOptions \<Rightarrow> string \<Rightarrow> lid \<Rightarrow> nat \<Rightarrow> dispatch \<Rightarrow> task \<times> dispatch" where
  "runOne_start env opts nm l i s =
     (case call_handler env l i s of
        (Some e, s1) \<Rightarrow> (case runOne_catch env opts nm i e s1 of (r, s2) \<Rightarrow> (Done r, s2))
      | (None, s1) \<Rightarrow> (Awaiting (wrapped env opts l i), s1))"

text \<open>The rest of the body, run when the wrapped promise has settled as \<open>x\<close>.\<close>

definition runOne_resume ::
  "env \<Rightarrow> EmitAsyncOptions \<Rightarrow> string \<Rightarrow> nat \<Rightarrow> settlement \<Rightarrow> dispatch \<Rightarrow> settlement \<times> dispatch" where
  "runOne_resume env opts nm i x s =
     (case x of Fulfilled \<Rightarrow> (Fulfilled, s) | Rejected e \<Rightarrow> runOne_catch env opts nm i e s)"

text \<open>\<open>await runOne(listener, idx)\<close>: \<open>None\<close> when the awaited promise never settles.\<close>

definition runOne ::
  "env \<Rightarrow> EmitAsyncOptions \<Rightarrow> string \<Rightarrow> lid \<Rightarrow> nat \<Rightarrow> dispatch \<Rightarrow> settlement option \<times> dispatch" where
  "runOne env opts nm l i s =
     (case runOne_start env opts nm l i s of
        (Done r, s1) \<Rightarrow> (Some r, s1)
      | (Awaiting None, s1) \<Rightarrow> (None, s1)
      | (Awaiting (Some x), s1) \<Rightarrow>
          (case runOne_resume env opts nm i x s1 of (r, s2) \<Rightarrow> (Some r, s2)))"

text \<open>The loop \<open>for (let i = 0; i < snapshot.length; i++) await runOne(snapshot[i], i)\<close>,
  on the listeners from position \<open>i\<close> on; the result is the fate of \<open>emitAsync\<close>'s promise.\<close>

fun sequential ::
  "env \<Rightarrow> EmitAsyncOptions \<Rightarrow> string \<Rightarrow> lid list \<Rightarrow> nat \<Rightarrow> dispatch \<Rightarrow>
   settlement option \<times> dispatch" where
  "sequential env opts nm [] i s = (Some Fulfilled, s)"
| "sequential env opts nm (l # ls) i s =
     (case runOne env opts nm l i s of
        (Some Fulfilled, s') \<Rightarrow> sequential env opts nm ls (Suc i) s'
      | (r, s') \<Rightarrow> (r, s'))"

text \<open>\<open>snapshot.map((l, i) => runOne(l, i))\<close>: every call is started, in order.\<close>

fun start_all ::
  "env \<Rightarrow> EmitAsyncOptions \<Rightarrow> string \<Rightarrow> lid list \<Rightarrow> nat \<Rightarrow> dispatch \<Rightarrow> task list \<times> dispatch" where
  "start_all env opts nm [] i s = ([], s)"
| "start_all env opts nm (l # ls) i s =
     (case runOne_start env opts nm l i s of
        (t, s1) \<Rightarrow> (case start_all env opts nm ls (Suc i) s1 of (ts, s2) \<Rightarrow> (t # ts, s2)))"

text \<open>
  \<open>Promise.all\<close>: rejected with the first rejection among its inputs, fulfilled once all
  inputs are fulfilled. \<open>joint\<close> is its settlement so far.
\<close>

record concurrent_state = dispatch +
  tasks :: "task list"
  joint :: "settlement option"

definition all_fulfilled :: "task list \<Rightarrow> bool" where
  "all_fulfilled ts = list_all (\<lambda>t. t = Done Fulfilled) ts"

definition first_rejection :: "task list \<Rightarrow> error option" where
  "first_rejection ts =
     (case filter (\<lambda>t. case t of Done (Rejected e) \<Rightarrow> True | _ \<Rightarrow> False) ts of
        Done (Rejected e) # _ \<Rightarrow> Some e
      | _ \<Rightarrow> None)"

definition join_start :: "task list \<Rightarrow> settlement option" where
  "join_start ts =
     (case first_rejection ts of
        Some e \<Rightarrow> Some (Rejected e)
      | None \<Rightarrow> if all_fulfilled ts then Some Fulfilled else None)"

text \<open>
  While \<open>emitAsync\<close> waits for \<open>Promise.all\<close>, the wrapped promises settle in some order.
  \<open>resume i\<close> is the step taken when the one of invocation \<open>i\<close> settles: the rest of that
  \<open>runOne\<close> call runs and settles its promise, which \<open>Promise.all\<close> observes. A wrapped
  promise that never settles, or an invocation that is not suspended, gives no step.
\<close>

definition resume ::
  "env \<Rightarrow> EmitAsyncOptions \<Rightarrow> string \<Rightarrow> nat \<Rightarrow> concurrent_state \<Rightarrow> concurrent_state" where
  "resume env opts nm i c =
     (if i < length (tasks c) then
        (case tasks c ! i of
           Awaiting (Some x) \<Rightarrow>
             (case runOne_resume env opts nm i x (dispatch.truncate c) of
                (r, s) \<Rightarrow>
                  (let ts = (tasks c)[i := Done r]
                   in \<lparr> mgr = mgr s, invoked = invoked s, reports = reports s, tasks = ts,
                        joint = (case joint c of
                                   Some j \<Rightarrow> Some j
                                 | None \<Rightarrow>
                                     (case r of
                                        Rejected e \<Rightarrow> Some (Rejected e)
                                      | Fulfilled \<Rightarrow>
                                          if all_fulfilled ts then Some Fulfilled else None)) \<rparr>))
         | _ \<Rightarrow> c)
      else c)"

definition concurrent ::
  "env \<Rightarrow> EmitAsyncOptions \<Rightarrow> string \<Rightarrow> lid list \<Rightarrow> nat list \<Rightarrow> dispatch \<Rightarrow> concurrent_state" where
  "concurrent env opts nm ls sched s =
     (case start_all env opts nm ls 0 s of
        (ts, s1) \<Rightarrow>
          foldl (\<lambda>c i. resume env opts nm i c)
            \<lparr> mgr = mgr s1, invoked = invoked s1, reports = reports s1, tasks = ts,
              joint = join_start ts \<rparr>
            sched)"

text \<open>
  \<open>emitAsync(event, options)\<close>. \<open>sched\<close> is the order in which wrapped promises settle
  while the call waits for \<open>Promise.all\<close>; the sequential loop waits for one promise at a
  time and has no such choice. The result is the fate of the returned promise after
  these steps and the state of the dispatch.
\<close>

definition emitAsync ::
  "env \<Rightarrow> manager \<Rightarrow> 'p NexusEvent \<Rightarrow> EmitAsyncOptions \<Rightarrow> nat list \<Rightarrow>
   settlement option \<times> dispatch" where
  "emitAsync env m event opts sched =
     (let nm = trim (name event);
          snap = snapshot m nm;
          s0 = \<lparr> mgr = m, invoked = [], reports = [] \<rparr>
      in if mode_of opts = ''sequential'' then sequential env opts nm snap 0 s0
         else (let c = concurrent env opts nm snap sched s0
               in (joint c, dispatch.truncate c)))"

section \<open>Reference values for the statements\<close>

text \<open>What the sink throws when it is called with \<open>e\<close>, \<open>nm\<close> and \<open>i\<close>, if it throws; and the
  sinks that return from every call, the absent sink among them.\<close>

definition sink_throws :: "env \<Rightarrow> error \<Rightarrow> string \<Rightarrow> nat \<Rightarrow> error option" where
  "sink_throws env e nm i =
     (case onError env of
        None \<Rightarrow> None
      | Some f \<Rightarrow> (case completion (f e nm i) of Returns \<Rightarrow> None | Throws x \<Rightarrow> Some x))"

definition sink_returns :: "env \<Rightarrow> bool" where
  "sink_returns env \<longleftrightarrow> (\<forall>e nm i. sink_throws env e nm i = None)"

text \<open>The calls to the sink that are due when the listeners \<open>ls\<close> are invoked by \<open>emit\<close>
  as invocations \<open>i\<close>, \<open>i + 1\<close>, ...: one for each handler that throws, with its number.\<close>

fun sync_failures :: "env \<Rightarrow> string \<Rightarrow> lid list \<Rightarrow> nat \<Rightarrow> report list" where
  "sync_failures env nm [] i = []"
| "sync_failures env nm (l # ls) i =
     (case completion (handler env l i) of Throws e \<Rightarrow> [(e, nm, i)] | Returns \<Rightarrow> []) @
     sync_failures env nm ls (Suc i)"

text \<open>
  A loop over the listeners \<open>ls\<close>, run as invocations \<open>i\<close>, \<open>i + 1\<close>, ..., that is left at
  the first invocation for which \<open>stop\<close> holds: whether it is left, and how many
  invocations it makes.
\<close>

fun leaves :: "(lid \<Rightarrow> nat \<Rightarrow> bool) \<Rightarrow> lid list \<Rightarrow> nat \<Rightarrow> bool" where
  "leaves stop [] i = False"
| "leaves stop (l # ls) i = (stop l i \<or> leaves stop ls (Suc i))"

fun performed :: "(lid \<Rightarrow> nat \<Rightarrow> bool) \<Rightarrow> lid list \<Rightarrow> nat \<Rightarrow> nat" where
  "performed stop [] i = 0"
| "performed stop (l # ls) i = (if stop l i then 1 else Suc (performed stop ls (Suc i)))"

text \<open>An invocation ends \<open>emit\<close>: the handler throws and the sink, called with the error,
  throws.\<close>

definition emit_stops :: "env \<Rightarrow> string \<Rightarrow> lid \<Rightarrow> nat \<Rightarrow> bool" where
  "emit_stops env nm l i =
     (case completion (handler env l i) of
        Returns \<Rightarrow> False
      | Throws e \<Rightarrow> sink_throws env e nm i \<noteq> None)"

text \<open>The state of \<open>emit\<close> when \<open>run(specific)\<close> has returned or thrown.\<close>

definition first_pass :: "env \<Rightarrow> manager \<Rightarrow> string \<Rightarrow> emit_state" where
  "first_pass env m nm =
     snd (run env nm (listeners m nm) \<lparr> mgr = m, invoked = [], reports = [], idx = 0 \<rparr>)"

text \<open>
  The outcome of the \<open>try\<close> block of \<open>runOne\<close> for invocation \<open>i\<close> of \<open>l\<close>: the error
  thrown by the handler, or else the settlement of the wrapped promise.
\<close>

definition try_outcome :: "env \<Rightarrow> EmitAsyncOptions \<Rightarrow> lid \<Rightarrow> nat \<Rightarrow> settlement option" where
  "try_outcome env opts l i =
     (case completion (handler env l i) of
        Throws e \<Rightarrow> Some (Rejected e)
      | Returns \<Rightarrow> wrapped env opts l i)"

text \<open>The settlement that the \<open>catch\<close> clause of \<open>runOne\<close> gives \<open>runOne\<close>'s promise: when
  the sink returns, and in general.\<close>

definition catch_result :: "EmitAsyncOptions \<Rightarrow> error \<Rightarrow> settlement" where
  "catch_result opts e =
     (if mode_of opts = ''sequential'' \<and> stopOnError_of opts then Rejected e else Fulfilled)"

definition caught :: "env \<Rightarrow> EmitAsyncOptions \<Rightarrow> string \<Rightarrow> nat \<Rightarrow> error \<Rightarrow> settlement" where
  "caught env opts nm i e =
     (case sink_throws env e nm i of Some x \<Rightarrow> Rejected x | None \<Rightarrow> catch_result opts e)"

text \<open>The fate of the promise of \<open>runOne(l, i)\<close>.\<close>

definition runOne_fate ::
  "env \<Rightarrow> EmitAsyncOptions \<Rightarrow> string \<Rightarrow> lid \<Rightarrow> nat \<Rightarrow> settlement option" where
  "runOne_fate env opts nm l i =
     (case try_outcome env opts l i of
        None \<Rightarrow> None
      | Some Fulfilled \<Rightarrow> Some Fulfilled
      | Some (Rejected e) \<Rightarrow> Some (caught env opts nm i e))"

text \<open>The sequential loop goes on after an invocation only if \<open>runOne\<close>'s promise is
  fulfilled.\<close>

definition sequential_stops :: "env \<Rightarrow> EmitAsyncOptions \<Rightarrow> string \<Rightarrow> lid \<Rightarrow> nat \<Rightarrow> bool" where
  "sequential_stops env opts nm l i \<longleftrightarrow> runOne_fate env opts nm l i \<noteq> Some Fulfilled"

text \<open>What a call of \<open>runOne\<close> leaves behind when it returns: a settled promise when the
  handler threw, a call suspended on the wrapped promise otherwise.\<close>

definition start_task :: "env \<Rightarrow> EmitAsyncOptions \<Rightarrow> string \<Rightarrow> lid \<Rightarrow> nat \<Rightarrow> task" where
  "start_task env opts nm l i =
     (case completion (handler env l i) of
        Throws e \<Rightarrow> Done (caught env opts nm i e)
      | Returns \<Rightarrow> Awaiting (wrapped env opts l i))"

text \<open>The calls to the sink that are due when the listeners \<open>ls\<close> are run by \<open>runOne\<close>
  as invocations \<open>i\<close>, \<open>i + 1\<close>, ...: one for each failed outcome, with its number.\<close>

fun async_failures :: "env \<Rightarrow> EmitAsyncOptions \<Rightarrow> string \<Rightarrow> lid list \<Rightarrow> nat \<Rightarrow> report list" where
  "async_failures env opts nm [] i = []"
| "async_failures env opts nm (l # ls) i =
     (case try_outcome env opts l i of Some (Rejected e) \<Rightarrow> [(e, nm, i)] | _ \<Rightarrow> []) @
     async_failures env opts nm ls (Suc i)"

text \<open>
  In a concurrent dispatch of the listeners \<open>ls\<close>, the \<open>runOne\<close> call of invocation \<open>j\<close>
  has run to its end once the settlements listed in \<open>sched\<close> have happened: its handler
  threw, or its wrapped promise settles and has done so.
\<close>

definition completed :: "env \<Rightarrow> EmitAsyncOptions \<Rightarrow> lid list \<Rightarrow> nat list \<Rightarrow> nat \<Rightarrow> bool" where
  "completed env opts ls sched j \<longleftrightarrow>
     j < length ls \<and>
     (case completion (handler env (ls ! j) j) of
        Throws e \<Rightarrow> True
      | Returns \<Rightarrow> wrapped env opts (ls ! j) j \<noteq> None \<and> j \<in> set sched)"

section \<open>Example dispatches\<close>

text \<open>
  A registry with two listeners under \<open>order\<close> and one under \<open>*\<close>, an event for each of
  the two keys, and some handler behaviours: \<open>quiet\<close> returns a promise that fulfils;
  in \<open>env_boom\<close> the promise of listener 20 rejects; in \<open>env_throw\<close> listener 10 throws;
  in \<open>env_late\<close> listener 10 registers listener 40 under \<open>*\<close> while it runs; in
  \<open>env_mixed\<close>, under the options \<open>options_guarded\<close> with a timeout and a signal,
  listener 10 is timed out, listener 20 throws and listener 30 is aborted. In all of
  these the sink returns. In \<open>env_sink\<close> listener 10 throws and the sink throws in turn;
  in \<open>env_sink_later\<close> it is the promise of listener 10 that rejects. In \<open>env_hang\<close> the
  promise of listener 10 never settles.
\<close>

definition quiet :: behaviour where
  "quiet = \<lparr> calls = [], completion = Returns, race = [Settles Fulfilled] \<rparr>"

definition registry_ex :: manager where
  "registry_ex = build [(''order'', 10), (''order'', 20), (''*'', 30)]"

definition order_ev :: "unit NexusEvent" where
  "order_ev = \<lparr> name = '' order '', payload = () \<rparr>"

definition star_ev :: "unit NexusEvent" where
  "star_ev = \<lparr> name = ''*'', payload = () \<rparr>"

definition env_quiet :: env where
  "env_quiet = \<lparr> handler = (\<lambda>l i. quiet), onError = Some (\<lambda>e nm i. quiet) \<rparr>"

definition env_boom :: env where
  "env_boom =
     \<lparr> handler = (\<lambda>l i. if l = 20 then quiet\<lparr> race := [Settles (Rejected (Thrown ''boom''))] \<rparr>
                          else quiet),
       onError = Some (\<lambda>e nm i. quiet) \<rparr>"

definition env_throw :: env where
  "env_throw =
     \<lparr> handler = (\<lambda>l i. if l = 10 then quiet\<lparr> completion := Throws (Thrown ''boom'') \<rparr> else quiet),
       onError = Some (\<lambda>e nm i. quiet) \<rparr>"

definition env_late :: env where
  "env_late =
     \<lparr> handler = (\<lambda>l i. if l = 10 then quiet\<lparr> calls := [(''*'', 40)] \<rparr> else quiet),
       onError = Some (\<lambda>e nm i. quiet) \<rparr>"

definition env_mixed :: env where
  "env_mixed =
     \<lparr> handler = (\<lambda>l i. if l = 10 then quiet\<lparr> race := [TimerFires, Settles Fulfilled] \<rparr>
                          else if l = 20 then quiet\<lparr> completion := Throws (Thrown ''boom'') \<rparr>
                          else quiet\<lparr> race := [AbortFires] \<rparr>),
       onError = Some (\<lambda>e nm i. quiet) \<rparr>"

definition options_guarded :: EmitAsyncOptions where
  "options_guarded =
     \<lparr> mode = Some ''sequential'', stopOnError = None, timeOutMs = Some (Finite 100),
       signal = Some (\<lambda>i. False) \<rparr>"

definition env_sink :: env where
  "env_sink =
     \<lparr> handler = (\<lambda>l i. if l = 10 then quiet\<lparr> completion := Throws (Thrown ''boom'') \<rparr> else quiet),
       onError = Some (\<lambda>e nm i. quiet\<lparr> completion := Throws (Thrown ''sink'') \<rparr>) \<rparr>"

definition env_sink_later :: env where
  "env_sink_later =
     \<lparr> handler = (\<lambda>l i. if l = 10 then quiet\<lparr> race := [Settles (Rejected (Thrown ''boom''))] \<rparr>
                          else quiet),
       onError = Some (\<lambda>e nm i. quiet\<lparr> completion := Throws (Thrown ''sink'') \<rparr>) \<rparr>"

definition options_ex :: "string option \<Rightarrow> bool option \<Rightarrow> EmitAsyncOptions" where
  "options_ex md stop = \<lparr> mode = md, stopOnError = stop, timeOutMs = None, signal = None \<rparr>"

definition env_hang :: env where
  "env_hang =
     \<lparr> handler = (\<lambda>l i. if l = 10 then quiet\<lparr> race := [] \<rparr> else quiet),
       onError = Some (\<lambda>e nm i. quiet) \<rparr>"

section \<open>Properties of the registry\<close>

lemma distinct_set_add: "distinct xs \<Longrightarrow> distinct (set_add xs l)"
  by (simp add: set_add_def)

lemma set_add_idem: "set_add (set_add xs l) l = set_add xs l"
  by (simp add: set_add_def)

lemma wf_new_manager: "wf_manager new_manager"
  by (simp add: wf_manager_def new_manager_def)

lemma wf_register: "wf_manager m \<Longrightarrow> wf_manager (register m k l)"
  unfolding wf_manager_def register_def Let_def
  by (auto split: option.splits simp: distinct_set_add less_Suc_eq dest: less_irrefl_nat)

lemma members_register:
  "wf_manager m \<Longrightarrow> members (register m k l) k' =
     (if k' = trim k then set_add (members m k') l else members m k')"
  unfolding wf_manager_def register_def Let_def members_def
  by (auto split: option.splits)

lemma listeners_register:
  "listeners (register m k l) k' =
     (if k' = trim k then (case listeners m k' of Some a \<Rightarrow> Some a | None \<Rightarrow> Some (fresh m))
      else listeners m k')"
  unfolding register_def Let_def
  by (auto split: option.splits)

lemma registers_Nil: "registers m [] = m"
  by (simp add: registers_def)

lemma registers_Cons: "registers m ((k, l) # rs) = registers (register m k l) rs"
  by (simp add: registers_def)

lemma registers_snoc: "registers m (rs @ [(k, l)]) = register (registers m rs) k l"
  by (simp add: registers_def)

lemma wf_registers: "wf_manager m \<Longrightarrow> wf_manager (registers m rs)"
  by (induction rs arbitrary: m) (auto simp: registers_Nil registers_Cons wf_register)

lemma wf_build: "wf_manager (build rs)"
  by (simp add: build_def wf_registers wf_new_manager)

lemma distinct_members: "wf_manager m \<Longrightarrow> distinct (members m k)"
  by (auto simp: wf_manager_def members_def split: option.splits)

lemma register_idem: "register (register m k l) k l = register m k l"
  unfolding register_def Let_def
  by (cases "listeners m (trim k)") (auto simp: set_add_def fun_upd_idem_iff)

lemma count_set_add: "distinct xs \<Longrightarrow> count_list (set_add xs l) l = 1"
  by (induction xs) (auto simp: set_add_def split: if_splits)

lemma filter_set_add: "filter (\<lambda>x. x \<noteq> l) (set_add xs l) = filter (\<lambda>x. x \<noteq> l) xs"
  by (simp add: set_add_def)

lemma registers_append: "registers (registers m xs) ys = registers m (xs @ ys)"
  by (simp add: registers_def)

lemma prefix_set_add: "prefix xs (set_add xs l)"
  by (simp add: set_add_def)

lemma prefix_members_register: "wf_manager m \<Longrightarrow> prefix (members m k) (members (register m k' l) k)"
  by (simp add: members_register prefix_set_add)

lemma prefix_members_registers:
  "wf_manager m \<Longrightarrow> prefix (members m k) (members (registers m cs) k)"
proof (induction cs arbitrary: m)
  case Nil
  then show ?case by (simp add: registers_Nil)
next
  case (Cons c cs)
  obtain k' l where c: "c = (k', l)" by (cases c)
  have "prefix (members m k) (members (register m k' l) k)"
    using Cons.prems by (rule prefix_members_register)
  moreover have "prefix (members (register m k' l) k) (members (registers (register m k' l) cs) k)"
    using Cons.prems by (intro Cons.IH wf_register)
  ultimately show ?case
    unfolding c registers_Cons by (rule prefix_order.trans)
qed

lemma listeners_register_Some:
  "listeners m k = Some a \<Longrightarrow> listeners (register m k' l) k = Some a"
  by (auto simp: listeners_register)

lemma listeners_registers_Some:
  "listeners m k = Some a \<Longrightarrow> listeners (registers m cs) k = Some a"
  by (induction cs arbitrary: m) (auto simp: registers_Nil registers_Cons listeners_register_Some)

section \<open>Properties of synchronous emission\<close>

lemma sink_returns_throws: "sink_returns env \<Longrightarrow> sink_throws env e nm i = None"
  by (simp add: sink_returns_def)

lemma sink_returns_emit_stops: "sink_returns env \<Longrightarrow> emit_stops env nm = (\<lambda>l i. False)"
  by (intro ext) (simp add: emit_stops_def sink_returns_throws split: completion.splits)

lemma leaves_never: "leaves (\<lambda>l i. False) ls i = False"
  by (induction ls arbitrary: i) simp_all

lemma performed_never: "performed (\<lambda>l i. False) ls i = length ls"
  by (induction ls arbitrary: i) simp_all

lemma performed_le: "performed stop ls i \<le> length ls"
  by (induction ls arbitrary: i) simp_all

lemma performed_full: "\<not> leaves stop ls i \<Longrightarrow> performed stop ls i = length ls"
  by (induction ls arbitrary: i) simp_all

lemma performed_append_left:
  "leaves stop xs i \<Longrightarrow> performed stop (xs @ ys) i = performed stop xs i"
  by (induction xs arbitrary: i) auto

lemma performed_append_through:
  "\<not> leaves stop xs i \<Longrightarrow>
   performed stop (xs @ ys) i = length xs + performed stop ys (i + length xs)"
  by (induction xs arbitrary: i) auto

lemma call_handler_eq:
  "call_handler env l i s =
     (case completion (handler env l i) of Returns \<Rightarrow> None | Throws e \<Rightarrow> Some e,
      s\<lparr> mgr := registers (mgr s) (calls (handler env l i)), invoked := invoked s @ [l] \<rparr>)"
  by (simp add: call_handler_def Let_def)

lemma onError_call_fst: "fst (onError_call env e nm i s) = sink_throws env e nm i"
  by (simp add: onError_call_def sink_throws_def Let_def split: option.splits)

lemma onError_call_invoked: "invoked (snd (onError_call env e nm i s)) = invoked s"
  by (simp add: onError_call_def Let_def split: option.splits)

lemma onError_call_reports:
  "reports (snd (onError_call env e nm i s)) =
     reports s @ (if onError env = None then [] else [(e, nm, i)])"
  by (simp add: onError_call_def Let_def split: option.splits)

lemma onError_call_mgr: "\<exists>cs. mgr (snd (onError_call env e nm i s)) = registers (mgr s) cs"
proof (cases "onError env")
  case None
  then show ?thesis by (intro exI[of _ "[]"]) (simp add: onError_call_def registers_Nil)
next
  case (Some f)
  then show ?thesis by (intro exI[of _ "calls (f e nm i)"]) (simp add: onError_call_def Let_def)
qed

lemma onError_call_idx: "idx (snd (onError_call env e nm i s)) = idx s"
  by (simp add: onError_call_def Let_def split: option.splits)

subsection \<open>One iteration of the loop of \<open>run\<close>\<close>

lemma iteration_Returns:
  "completion (handler env l (idx s)) = Returns \<Longrightarrow>
   iteration env nm l s =
     (None, s\<lparr> mgr := registers (mgr s) (calls (handler env l (idx s))),
               invoked := invoked s @ [l], idx := Suc (idx s) \<rparr>)"
  by (simp add: iteration_def try_catch_finally_def call_handler_eq)

lemma iteration_Throws:
  "completion (handler env l (idx s)) = Throws e \<Longrightarrow>
   iteration env nm l s =
     (fst (onError_call env e nm (idx s)
            (s\<lparr> mgr := registers (mgr s) (calls (handler env l (idx s))),
                 invoked := invoked s @ [l] \<rparr>)),
      (snd (onError_call env e nm (idx s)
            (s\<lparr> mgr := registers (mgr s) (calls (handler env l (idx s))),
                 invoked := invoked s @ [l] \<rparr>)))\<lparr> idx := Suc (idx s) \<rparr>)"
proof -
  assume t: "completion (handler env l (idx s)) = Throws e"
  let ?s1 = "s\<lparr> mgr := registers (mgr s) (calls (handler env l (idx s))),
                 invoked := invoked s @ [l] \<rparr>"
  obtain r s2 where oc: "onError_call env e nm (idx s) ?s1 = (r, s2)"
    by (cases "onError_call env e nm (idx s) ?s1")
  have "idx s2 = idx s" using onError_call_idx[of env e nm "idx s" ?s1] oc by simp
  then show ?thesis
    using t oc by (simp add: iteration_def try_catch_finally_def call_handler_eq)
qed

lemma iteration_raises: "fst (iteration env nm l s) \<noteq> None \<longleftrightarrow> emit_stops env nm l (idx s)"
  by (cases "completion (handler env l (idx s))")
     (simp_all add: iteration_Returns iteration_Throws onError_call_fst emit_stops_def)

lemma iteration_invoked: "invoked (snd (iteration env nm l s)) = invoked s @ [l]"
  by (cases "completion (handler env l (idx s))")
     (simp_all add: iteration_Returns iteration_Throws onError_call_invoked)

lemma iteration_idx: "idx (snd (iteration env nm l s)) = Suc (idx s)"
  by (cases "completion (handler env l (idx s))")
     (simp_all add: iteration_Returns iteration_Throws)

lemma iteration_reports:
  "reports (snd (iteration env nm l s)) =
     reports s @ (if onError env = None then [] else sync_failures env nm [l] (idx s))"
  by (cases "completion (handler env l (idx s))")
     (simp_all add: iteration_Returns iteration_Throws onError_call_reports)

lemma iteration_mgr: "\<exists>cs. mgr (snd (iteration env nm l s)) = registers (mgr s) cs"
proof (cases "completion (handler env l (idx s))")
  case Returns
  then show ?thesis by (simp add: iteration_Returns) blast
next
  case (Throws e)
  let ?s1 = "s\<lparr> mgr := registers (mgr s) (calls (handler env l (idx s))),
                 invoked := invoked s @ [l] \<rparr>"
  obtain cs where "mgr (snd (onError_call env e nm (idx s) ?s1)) = registers (mgr ?s1) cs"
    using onError_call_mgr by blast
  then have "mgr (snd (iteration env nm l s)) =
      registers (mgr s) (calls (handler env l (idx s)) @ cs)"
    using Throws by (simp add: iteration_Throws registers_append)
  then show ?thesis by blast
qed

subsection \<open>The loop of \<open>run\<close>\<close>

lemma for_of_iteration_go:
  "\<not> emit_stops env nm x (idx s) \<Longrightarrow>
   for_of (x # xs) (iteration env nm) s =
     for_of xs (iteration env nm) (snd (iteration env nm x s))"
  using iteration_raises[of env nm x s] by (cases "iteration env nm x s") simp

lemma for_of_iteration_stop:
  "emit_stops env nm x (idx s) \<Longrightarrow>
   for_of (x # xs) (iteration env nm) s = iteration env nm x s"
  using iteration_raises[of env nm x s] by (cases "iteration env nm x s") auto

lemma for_of_iteration_raises:
  "fst (for_of xs (iteration env nm) s) \<noteq> None \<longleftrightarrow> leaves (emit_stops env nm) xs (idx s)"
proof (induction xs arbitrary: s)
  case Nil
  show ?case by simp
next
  case (Cons x xs)
  show ?case
  proof (cases "emit_stops env nm x (idx s)")
    case True
    note r = for_of_iteration_stop[OF True]
    show ?thesis unfolding r using True iteration_raises[of env nm x s] by simp
  next
    case False
    note r = for_of_iteration_go[OF False]
    show ?thesis unfolding r Cons.IH using False by (simp add: iteration_idx)
  qed
qed

lemma for_of_iteration_invoked:
  "invoked (snd (for_of xs (iteration env nm) s)) =
     invoked s @ take (performed (emit_stops env nm) xs (idx s)) xs"
proof (induction xs arbitrary: s)
  case Nil
  show ?case by simp
next
  case (Cons x xs)
  show ?case
  proof (cases "emit_stops env nm x (idx s)")
    case True
    note r = for_of_iteration_stop[OF True]
    show ?thesis unfolding r using True by (simp add: iteration_invoked)
  next
    case False
    note r = for_of_iteration_go[OF False]
    show ?thesis unfolding r Cons.IH using False
      by (simp add: iteration_invoked iteration_idx)
  qed
qed

lemma for_of_iteration_idx:
  "idx (snd (for_of xs (iteration env nm) s)) = idx s + performed (emit_stops env nm) xs (idx s)"
proof (induction xs arbitrary: s)
  case Nil
  show ?case by simp
next
  case (Cons x xs)
  show ?case
  proof (cases "emit_stops env nm x (idx s)")
    case True
    note r = for_of_iteration_stop[OF True]
    show ?thesis unfolding r using True by (simp add: iteration_idx)
  next
    case False
    note r = for_of_iteration_go[OF False]
    show ?thesis unfolding r Cons.IH using False
      by (simp add: iteration_idx)
  qed
qed

lemma sync_failures_Cons:
  "sync_failures env nm (l # ls) i = sync_failures env nm [l] i @ sync_failures env nm ls (Suc i)"
  by simp

lemma sync_failures_append:
  "sync_failures env nm (xs @ ys) i =
     sync_failures env nm xs i @ sync_failures env nm ys (i + length xs)"
  by (induction xs arbitrary: i) simp_all

lemma for_of_iteration_reports:
  "reports (snd (for_of xs (iteration env nm) s)) =
     reports s @
     (if onError env = None then []
      else sync_failures env nm (take (performed (emit_stops env nm) xs (idx s)) xs) (idx s))"
proof (induction xs arbitrary: s)
  case Nil
  show ?case by simp
next
  case (Cons x xs)
  show ?case
  proof (cases "emit_stops env nm x (idx s)")
    case True
    note r = for_of_iteration_stop[OF True]
    show ?thesis unfolding r using True by (simp add: iteration_reports)
  next
    case False
    note r = for_of_iteration_go[OF False]
    have t: "take (performed (emit_stops env nm) (x # xs) (idx s)) (x # xs) =
        x # take (performed (emit_stops env nm) xs (Suc (idx s))) xs"
      using False by simp
    show ?thesis unfolding r Cons.IH t iteration_reports iteration_idx
      by (subst (2) sync_failures_Cons) simp
  qed
qed

lemma for_of_iteration_mgr:
  "\<exists>cs. mgr (snd (for_of xs (iteration env nm) s)) = registers (mgr s) cs"
proof (induction xs arbitrary: s)
  case Nil
  show ?case by (rule exI[of _ "[]"]) (simp add: registers_Nil)
next
  case (Cons x xs)
  obtain c1 where c1: "mgr (snd (iteration env nm x s)) = registers (mgr s) c1"
    using iteration_mgr by blast
  show ?case
  proof (cases "emit_stops env nm x (idx s)")
    case False
    obtain cs where "mgr (snd (for_of xs (iteration env nm) (snd (iteration env nm x s)))) =
        registers (mgr (snd (iteration env nm x s))) cs"
      using Cons.IH by blast
    then show ?thesis unfolding for_of_iteration_go[OF False] c1 registers_append by blast
  next
    case True
    show ?thesis unfolding for_of_iteration_stop[OF True] using c1 by blast
  qed
qed

lemma leaves_append:
  "leaves stop (xs @ ys) i \<longleftrightarrow> leaves stop xs i \<or> leaves stop ys (i + length xs)"
  by (induction xs arbitrary: i) auto

lemma take_performed_append_left:
  "leaves stop xs i \<Longrightarrow>
   take (performed stop (xs @ ys) i) (xs @ ys) = take (performed stop xs i) xs"
  by (simp add: performed_append_left performed_le)

lemma take_performed_append_through:
  "\<not> leaves stop xs i \<Longrightarrow>
   take (performed stop (xs @ ys) i) (xs @ ys) =
     xs @ take (performed stop ys (i + length xs)) ys"
  by (simp add: performed_append_through)

subsection \<open>The closure \<open>run\<close>\<close>

lemma run_eq:
  "run env nm st s =
     for_of (case st of None \<Rightarrow> [] | Some a \<Rightarrow> heap (mgr s) a) (iteration env nm) s"
  by (simp add: run_def split: option.splits)

lemma run_raises:
  "fst (run env nm st s) \<noteq> None \<longleftrightarrow>
     leaves (emit_stops env nm) (case st of None \<Rightarrow> [] | Some a \<Rightarrow> heap (mgr s) a) (idx s)"
  unfolding run_eq by (rule for_of_iteration_raises)

lemma run_invoked:
  "invoked (snd (run env nm st s)) =
     invoked s @
     take (performed (emit_stops env nm) (case st of None \<Rightarrow> [] | Some a \<Rightarrow> heap (mgr s) a) (idx s))
       (case st of None \<Rightarrow> [] | Some a \<Rightarrow> heap (mgr s) a)"
  unfolding run_eq by (rule for_of_iteration_invoked)

lemma run_idx:
  "idx (snd (run env nm st s)) =
     idx s +
     performed (emit_stops env nm) (case st of None \<Rightarrow> [] | Some a \<Rightarrow> heap (mgr s) a) (idx s)"
  unfolding run_eq by (rule for_of_iteration_idx)

lemma run_reports:
  "reports (snd (run env nm st s)) =
     reports s @
     (if onError env = None then []
      else sync_failures env nm
             (take (performed (emit_stops env nm)
                      (case st of None \<Rightarrow> [] | Some a \<Rightarrow> heap (mgr s) a) (idx s))
                (case st of None \<Rightarrow> [] | Some a \<Rightarrow> heap (mgr s) a))
             (idx s))"
  unfolding run_eq by (rule for_of_iteration_reports)

lemma run_mgr: "\<exists>cs. mgr (snd (run env nm st s)) = registers (mgr s) cs"
  unfolding run_eq by (rule for_of_iteration_mgr)

subsection \<open>\<open>emit\<close> as two passes\<close>

lemma first_pass_raises:
  "fst (run env nm (listeners m nm) \<lparr> mgr = m, invoked = [], reports = [], idx = 0 \<rparr>) \<noteq> None \<longleftrightarrow>
     leaves (emit_stops env nm) (members m nm) 0"
  using run_raises[of env nm "listeners m nm" "\<lparr> mgr = m, invoked = [], reports = [], idx = 0 \<rparr>"]
  by (cases "listeners m nm") (simp_all add: members_def)

lemma first_pass_invoked:
  "invoked (first_pass env m nm) =
     take (performed (emit_stops env nm) (members m nm) 0) (members m nm)"
  by (simp add: first_pass_def run_invoked members_def split: option.splits)

lemma first_pass_idx:
  "idx (first_pass env m nm) = performed (emit_stops env nm) (members m nm) 0"
  by (simp add: first_pass_def run_idx members_def split: option.splits)

lemma first_pass_reports:
  "reports (first_pass env m nm) =
     (if onError env = None then []
      else sync_failures env nm
             (take (performed (emit_stops env nm) (members m nm) 0) (members m nm)) 0)"
  by (simp add: first_pass_def run_reports members_def split: option.splits)

lemma first_pass_mgr: "\<exists>cs. mgr (first_pass env m nm) = registers m cs"
  using run_mgr[of env nm "listeners m nm" "\<lparr> mgr = m, invoked = [], reports = [], idx = 0 \<rparr>"]
  by (simp add: first_pass_def)

lemma emit_left:
  "leaves (emit_stops env (trim (name ev))) (members m (trim (name ev))) 0 \<Longrightarrow>
   emit env m ev =
     run env (trim (name ev)) (listeners m (trim (name ev)))
       \<lparr> mgr = m, invoked = [], reports = [], idx = 0 \<rparr>"
proof -
  let ?nm = "trim (name ev)"
  let ?r = "run env ?nm (listeners m ?nm) \<lparr> mgr = m, invoked = [], reports = [], idx = 0 \<rparr>"
  assume "leaves (emit_stops env ?nm) (members m ?nm) 0"
  then have "fst ?r \<noteq> None" by (simp only: first_pass_raises)
  then obtain e s1 where "?r = (Some e, s1)" by (cases ?r) auto
  then show ?thesis by (simp add: emit_def Let_def)
qed

lemma emit_through:
  "\<not> leaves (emit_stops env (trim (name ev))) (members m (trim (name ev))) 0 \<Longrightarrow>
   emit env m ev =
     (case listeners m ''*'' of
        Some a \<Rightarrow> run env (trim (name ev)) (Some a) (first_pass env m (trim (name ev)))
      | None \<Rightarrow> (None, first_pass env m (trim (name ev))))"
proof -
  let ?nm = "trim (name ev)"
  let ?r = "run env ?nm (listeners m ?nm) \<lparr> mgr = m, invoked = [], reports = [], idx = 0 \<rparr>"
  assume "\<not> leaves (emit_stops env ?nm) (members m ?nm) 0"
  then have "fst ?r = None" using first_pass_raises[of env ?nm m] by blast
  then obtain s1 where "?r = (None, s1)" by (cases ?r) auto
  then show ?thesis by (simp add: emit_def Let_def first_pass_def split: option.splits)
qed

text \<open>The wildcard listeners that \<open>emit\<close> runs: the contents of the set when the first pass
  ends.\<close>

lemma emit_invoked:
  "invoked (snd (emit env m ev)) =
     take (performed (emit_stops env (trim (name ev)))
             (members m (trim (name ev)) @
              (case listeners m ''*'' of
                 Some a \<Rightarrow> heap (mgr (first_pass env m (trim (name ev)))) a
               | None \<Rightarrow> [])) 0)
       (members m (trim (name ev)) @
        (case listeners m ''*'' of
           Some a \<Rightarrow> heap (mgr (first_pass env m (trim (name ev)))) a
         | None \<Rightarrow> []))"
proof (cases "leaves (emit_stops env (trim (name ev))) (members m (trim (name ev))) 0")
  case True
  show ?thesis
    unfolding emit_left[OF True] take_performed_append_left[OF True]
    using first_pass_invoked[of env m "trim (name ev)"] by (simp add: first_pass_def)
next
  case False
  have i: "idx (first_pass env m (trim (name ev))) = length (members m (trim (name ev)))"
    and v: "invoked (first_pass env m (trim (name ev))) = members m (trim (name ev))"
    using False by (simp_all add: first_pass_idx first_pass_invoked performed_full)
  show ?thesis
    unfolding emit_through[OF False] take_performed_append_through[OF False]
    by (simp add: run_invoked i v split: option.splits)
qed

lemma emit_raises:
  "fst (emit env m ev) \<noteq> None \<longleftrightarrow>
     leaves (emit_stops env (trim (name ev)))
       (members m (trim (name ev)) @
        (case listeners m ''*'' of
           Some a \<Rightarrow> heap (mgr (first_pass env m (trim (name ev)))) a
         | None \<Rightarrow> [])) 0"
proof (cases "leaves (emit_stops env (trim (name ev))) (members m (trim (name ev))) 0")
  case True
  have "fst (run env (trim (name ev)) (listeners m (trim (name ev)))
           \<lparr> mgr = m, invoked = [], reports = [], idx = 0 \<rparr>) \<noteq> None"
    using True first_pass_raises by blast
  then show ?thesis
    unfolding emit_left[OF True] leaves_append using True by blast
next
  case False
  have i: "idx (first_pass env m (trim (name ev))) = length (members m (trim (name ev)))"
    using False by (simp add: first_pass_idx performed_full)
  show ?thesis
  proof (cases "listeners m ''*''")
    case None
    then show ?thesis unfolding emit_through[OF False] leaves_append using False by simp
  next
    case (Some a)
    have "fst (run env (trim (name ev)) (Some a) (first_pass env m (trim (name ev)))) \<noteq> None \<longleftrightarrow>
        leaves (emit_stops env (trim (name ev)))
          (heap (mgr (first_pass env m (trim (name ev)))) a)
          (length (members m (trim (name ev))))"
      using run_raises[of env "trim (name ev)" "Some a" "first_pass env m (trim (name ev))"]
      by (simp only: i option.case)
    then show ?thesis
      unfolding emit_through[OF False] leaves_append using False Some by simp
  qed
qed

lemma emit_reports:
  "reports (snd (emit env m ev)) =
     (if onError env = None then []
      else sync_failures env (trim (name ev)) (invoked (snd (emit env m ev))) 0)"
proof (cases "leaves (emit_stops env (trim (name ev))) (members m (trim (name ev))) 0")
  case True
  show ?thesis
    unfolding emit_left[OF True]
    using first_pass_reports[of env m "trim (name ev)"] first_pass_invoked[of env m "trim (name ev)"]
    by (simp add: first_pass_def)
next
  case False
  let ?nm = "trim (name ev)"
  let ?s1 = "first_pass env m ?nm"
  have i: "idx ?s1 = length (members m ?nm)"
    and v: "invoked ?s1 = members m ?nm"
    and r: "reports ?s1 =
      (if onError env = None then [] else sync_failures env ?nm (members m ?nm) 0)"
    using False
    by (simp_all add: first_pass_idx first_pass_invoked first_pass_reports performed_full)
  show ?thesis
  proof (cases "listeners m ''*''")
    case None
    then show ?thesis unfolding emit_through[OF False] by (simp add: v r)
  next
    case (Some a)
    let ?W = "heap (mgr ?s1) a"
    let ?t = "take (performed (emit_stops env ?nm) ?W (length (members m ?nm))) ?W"
    have iv: "invoked (snd (run env ?nm (Some a) ?s1)) = members m ?nm @ ?t"
      using run_invoked[of env ?nm "Some a" ?s1] by (simp only: i v option.case)
    have rp: "reports (snd (run env ?nm (Some a) ?s1)) =
        reports ?s1 @
        (if onError env = None then [] else sync_failures env ?nm ?t (length (members m ?nm)))"
      using run_reports[of env ?nm "Some a" ?s1] by (simp only: i option.case)
    show ?thesis
    proof (cases "onError env")
      case None
      then show ?thesis unfolding emit_through[OF False] using Some rp r by simp
    next
      case (Some f)
      then show ?thesis
        unfolding emit_through[OF False] using \<open>listeners m ''*'' = Some a\<close> rp r iv
        by (simp add: sync_failures_append)
    qed
  qed
qed

lemma emit_mgr: "\<exists>cs. mgr (snd (emit env m ev)) = registers (mgr (first_pass env m (trim (name ev)))) cs"
proof (cases "leaves (emit_stops env (trim (name ev))) (members m (trim (name ev))) 0")
  case True
  show ?thesis
    unfolding emit_left[OF True]
    by (intro exI[of _ "[]"]) (simp add: first_pass_def registers_Nil)
next
  case False
  show ?thesis
  proof (cases "listeners m ''*''")
    case None
    then show ?thesis
      unfolding emit_through[OF False] by (intro exI[of _ "[]"]) (simp add: registers_Nil)
  next
    case (Some a)
    then show ?thesis
      unfolding emit_through[OF False] using run_mgr by simp
  qed
qed

text \<open>On a reachable registry the wildcard listeners that are run extend those present
  when the call begins and are an initial segment of those present when it ends.\<close>

lemma emit_wildcard:
  "prefix (members (build rs) ''*'')
     (case listeners (build rs) ''*'' of
        Some a \<Rightarrow> heap (mgr (first_pass env (build rs) (trim (name ev)))) a
      | None \<Rightarrow> []) \<and>
   prefix
     (case listeners (build rs) ''*'' of
        Some a \<Rightarrow> heap (mgr (first_pass env (build rs) (trim (name ev)))) a
      | None \<Rightarrow> [])
     (members (mgr (snd (emit env (build rs) ev))) ''*'')"
proof (cases "listeners (build rs) ''*''")
  case None
  then show ?thesis by (simp add: members_def)
next
  case (Some a)
  let ?m = "build rs"
  let ?s1 = "first_pass env ?m (trim (name ev))"
  obtain cs where cs: "mgr ?s1 = registers ?m cs" using first_pass_mgr by blast
  have wf1: "wf_manager (mgr ?s1)" unfolding cs by (intro wf_registers wf_build)
  have l1: "listeners (mgr ?s1) ''*'' = Some a"
    unfolding cs using Some by (rule listeners_registers_Some)
  have W: "members (mgr ?s1) ''*'' = heap (mgr ?s1) a"
    by (simp add: members_def l1)
  have "prefix (members ?m ''*'') (members (registers ?m cs) ''*'')"
    by (intro prefix_members_registers wf_build)
  then have p1: "prefix (members ?m ''*'') (heap (mgr ?s1) a)"
    using W cs by simp
  obtain cs' where "mgr (snd (emit env ?m ev)) = registers (mgr ?s1) cs'"
    using emit_mgr by blast
  moreover have "prefix (members (mgr ?s1) ''*'') (members (registers (mgr ?s1) cs') ''*'')"
    using wf1 by (rule prefix_members_registers)
  ultimately have p2: "prefix (heap (mgr ?s1) a) (members (mgr (snd (emit env ?m ev))) ''*'')"
    using W by simp
  show ?thesis using p1 p2 by (simp add: Some)
qed

section \<open>Properties of asynchronous emission\<close>

lemma runOne_catch_fst: "fst (runOne_catch env opts nm i e s) = caught env opts nm i e"
proof (cases "onError_call env e nm i s")
  case (Pair r s')
  then have "sink_throws env e nm i = r" using onError_call_fst[of env e nm i s] by simp
  then show ?thesis
    using Pair by (cases r) (simp_all add: runOne_catch_def caught_def catch_result_def)
qed

lemma runOne_catch_snd: "snd (runOne_catch env opts nm i e s) = snd (onError_call env e nm i s)"
  by (cases "onError_call env e nm i s") (simp add: runOne_catch_def split: option.splits)

lemma runOne_catch_invoked: "invoked (snd (runOne_catch env opts nm i e s)) = invoked s"
  by (simp add: runOne_catch_snd onError_call_invoked)

lemma runOne_catch_reports:
  "reports (snd (runOne_catch env opts nm i e s)) =
     reports s @ (if onError env = None then [] else [(e, nm, i)])"
  by (simp add: runOne_catch_snd onError_call_reports)

lemma runOne_Returns:
  "completion (handler env l i) = Returns \<Longrightarrow>
   runOne_start env opts nm l i s =
     (Awaiting (wrapped env opts l i),
      s\<lparr> mgr := registers (mgr s) (calls (handler env l i)), invoked := invoked s @ [l] \<rparr>)"
  by (simp add: runOne_start_def call_handler_eq)

lemma runOne_Throws:
  "completion (handler env l i) = Throws e \<Longrightarrow>
   runOne_start env opts nm l i s =
     (Done (caught env opts nm i e),
      snd (onError_call env e nm i
             (s\<lparr> mgr := registers (mgr s) (calls (handler env l i)),
                  invoked := invoked s @ [l] \<rparr>)))"
  using runOne_catch_fst[of env opts nm i e] runOne_catch_snd[of env opts nm i e]
  by (simp add: runOne_start_def call_handler_eq split: prod.splits) (metis fst_conv snd_conv)

lemma runOne_start_fst: "fst (runOne_start env opts nm l i s) = start_task env opts nm l i"
  by (cases "completion (handler env l i)")
     (simp_all add: runOne_Returns runOne_Throws start_task_def)

lemma runOne_start_invoked: "invoked (snd (runOne_start env opts nm l i s)) = invoked s @ [l]"
  by (cases "completion (handler env l i)")
     (simp_all add: runOne_Returns runOne_Throws onError_call_invoked)

lemma runOne_start_reports:
  "reports (snd (runOne_start env opts nm l i s)) =
     reports s @ (if onError env = None then [] else sync_failures env nm [l] i)"
  by (cases "completion (handler env l i)")
     (simp_all add: runOne_Returns runOne_Throws onError_call_reports)

lemma runOne_resume_fst:
  "fst (runOne_resume env opts nm i x s) =
     (case x of Fulfilled \<Rightarrow> Fulfilled | Rejected e \<Rightarrow> caught env opts nm i e)"
  by (cases x) (simp_all add: runOne_resume_def runOne_catch_fst)

lemma runOne_resume_invoked: "invoked (snd (runOne_resume env opts nm i x s)) = invoked s"
  by (cases x) (simp_all add: runOne_resume_def runOne_catch_invoked)

lemma runOne_resume_reports:
  "reports (snd (runOne_resume env opts nm i x s)) =
     reports s @
     (case x of
        Fulfilled \<Rightarrow> []
      | Rejected e \<Rightarrow> if onError env = None then [] else [(e, nm, i)])"
  by (cases x) (simp_all add: runOne_resume_def runOne_catch_reports)

lemma runOne_cases:
  "runOne env opts nm l i s =
     (case fst (runOne_start env opts nm l i s) of
        Done r \<Rightarrow> (Some r, snd (runOne_start env opts nm l i s))
      | Awaiting None \<Rightarrow> (None, snd (runOne_start env opts nm l i s))
      | Awaiting (Some x) \<Rightarrow>
          (Some (fst (runOne_resume env opts nm i x (snd (runOne_start env opts nm l i s)))),
           snd (runOne_resume env opts nm i x (snd (runOne_start env opts nm l i s)))))"
  by (simp add: runOne_def split: prod.splits task.splits option.splits)

lemma runOne_fst: "fst (runOne env opts nm l i s) = runOne_fate env opts nm l i"
  by (cases "completion (handler env l i)")
     (simp_all add: runOne_cases runOne_start_fst start_task_def runOne_resume_fst
        runOne_fate_def try_outcome_def split: option.splits settlement.splits)

lemma runOne_invoked: "invoked (snd (runOne env opts nm l i s)) = invoked s @ [l]"
  by (simp add: runOne_cases runOne_start_invoked runOne_resume_invoked
      split: task.splits option.splits)

lemma runOne_reports:
  "reports (snd (runOne env opts nm l i s)) =
     reports s @ (if onError env = None then [] else async_failures env opts nm [l] i)"
  by (cases "completion (handler env l i)")
     (auto simp: runOne_cases runOne_start_fst start_task_def runOne_start_reports
        runOne_resume_reports try_outcome_def split: option.splits settlement.splits)

subsection \<open>The sequential loop\<close>

lemma sequential_go:
  "\<not> sequential_stops env opts nm l i \<Longrightarrow>
   sequential env opts nm (l # ls) i s =
     sequential env opts nm ls (Suc i) (snd (runOne env opts nm l i s))"
  using runOne_fst[of env opts nm l i s]
  by (cases "runOne env opts nm l i s") (simp add: sequential_stops_def)

lemma sequential_stop:
  "sequential_stops env opts nm l i \<Longrightarrow>
   sequential env opts nm (l # ls) i s = runOne env opts nm l i s"
  using runOne_fst[of env opts nm l i s]
  by (cases "runOne env opts nm l i s")
     (auto simp: sequential_stops_def split: option.splits settlement.splits)

lemma sequential_invoked:
  "invoked (snd (sequential env opts nm ls i s)) =
     invoked s @ take (performed (sequential_stops env opts nm) ls i) ls"
proof (induction ls arbitrary: i s)
  case Nil
  show ?case by simp
next
  case (Cons l ls)
  show ?case
  proof (cases "sequential_stops env opts nm l i")
    case True
    show ?thesis unfolding sequential_stop[OF True] using True by (simp add: runOne_invoked)
  next
    case False
    show ?thesis unfolding sequential_go[OF False] Cons.IH using False
      by (simp add: runOne_invoked)
  qed
qed

lemma async_failures_Cons:
  "async_failures env opts nm (l # ls) i =
     async_failures env opts nm [l] i @ async_failures env opts nm ls (Suc i)"
  by simp

lemma sequential_reports:
  "reports (snd (sequential env opts nm ls i s)) =
     reports s @
     (if onError env = None then []
      else async_failures env opts nm
             (take (performed (sequential_stops env opts nm) ls i) ls) i)"
proof (induction ls arbitrary: i s)
  case Nil
  show ?case by simp
next
  case (Cons l ls)
  show ?case
  proof (cases "sequential_stops env opts nm l i")
    case True
    show ?thesis unfolding sequential_stop[OF True] using True by (simp add: runOne_reports)
  next
    case False
    have t: "take (performed (sequential_stops env opts nm) (l # ls) i) (l # ls) =
        l # take (performed (sequential_stops env opts nm) ls (Suc i)) ls"
      using False by simp
    show ?thesis unfolding sequential_go[OF False] Cons.IH t runOne_reports
      by (subst (2) async_failures_Cons) simp
  qed
qed

lemma sequential_through:
  "\<not> leaves (sequential_stops env opts nm) ls i \<Longrightarrow>
   fst (sequential env opts nm ls i s) = Some Fulfilled"
proof (induction ls arbitrary: i s)
  case Nil
  show ?case by simp
next
  case (Cons l ls)
  from Cons.prems have n: "\<not> sequential_stops env opts nm l i"
    and r: "\<not> leaves (sequential_stops env opts nm) ls (Suc i)"
    by simp_all
  show ?case unfolding sequential_go[OF n] by (rule Cons.IH[OF r])
qed

lemma sequential_left:
  "leaves (sequential_stops env opts nm) ls i \<Longrightarrow>
   fst (sequential env opts nm ls i s) \<noteq> Some Fulfilled"
proof (induction ls arbitrary: i s)
  case Nil
  then show ?case by simp
next
  case (Cons l ls)
  show ?case
  proof (cases "sequential_stops env opts nm l i")
    case True
    show ?thesis unfolding sequential_stop[OF True] using True
      by (simp add: runOne_fst sequential_stops_def)
  next
    case False
    with Cons.prems have "leaves (sequential_stops env opts nm) ls (Suc i)" by simp
    then show ?thesis unfolding sequential_go[OF False] by (rule Cons.IH)
  qed
qed

subsection \<open>Where the sequential loop is left\<close>

lemma leaves_none:
  "\<forall>j<length ls. \<not> stop (ls ! j) (i + j) \<Longrightarrow> \<not> leaves stop ls i"
proof (induction ls arbitrary: i)
  case Nil
  show ?case by simp
next
  case (Cons l ls)
  from Cons.prems[rule_format, of 0] have 0: "\<not> stop l i" by simp
  have "\<forall>j<length ls. \<not> stop (ls ! j) (Suc i + j)"
  proof (intro allI impI)
    fix j assume "j < length ls"
    then have "Suc j < length (l # ls)" by simp
    from Cons.prems[rule_format, OF this] show "\<not> stop (ls ! j) (Suc i + j)" by simp
  qed
  from Cons.IH[OF this] 0 show ?case by simp
qed

lemma performed_first:
  "k < length ls \<Longrightarrow> \<forall>j<k. \<not> stop (ls ! j) (i + j) \<Longrightarrow> stop (ls ! k) (i + k) \<Longrightarrow>
   performed stop ls i = Suc k"
proof (induction ls arbitrary: i k)
  case Nil
  then show ?case by simp
next
  case (Cons l ls)
  show ?case
  proof (cases k)
    case 0
    with Cons.prems show ?thesis by simp
  next
    case (Suc k')
    from Cons.prems(2)[rule_format, of 0] Suc have 0: "\<not> stop l i" by simp
    have 1: "k' < length ls" using Cons.prems(1) Suc by simp
    have 2: "\<forall>j<k'. \<not> stop (ls ! j) (Suc i + j)"
    proof (intro allI impI)
      fix j assume "j < k'"
      then have "Suc j < k" using Suc by simp
      from Cons.prems(2)[rule_format, OF this] show "\<not> stop (ls ! j) (Suc i + j)" by simp
    qed
    have 3: "stop (ls ! k') (Suc i + k')" using Cons.prems(3) Suc by simp
    from Cons.IH[OF 1 2 3] 0 Suc show ?thesis by simp
  qed
qed

lemma sequential_fst_first:
  "k < length ls \<Longrightarrow> \<forall>j<k. \<not> sequential_stops env opts nm (ls ! j) (i + j) \<Longrightarrow>
   sequential_stops env opts nm (ls ! k) (i + k) \<Longrightarrow>
   fst (sequential env opts nm ls i s) = runOne_fate env opts nm (ls ! k) (i + k)"
proof (induction ls arbitrary: i k s)
  case Nil
  then show ?case by simp
next
  case (Cons l ls)
  show ?case
  proof (cases k)
    case 0
    with Cons.prems have st: "sequential_stops env opts nm l i" by simp
    show ?thesis unfolding sequential_stop[OF st] using 0 by (simp add: runOne_fst)
  next
    case (Suc k')
    from Cons.prems(2)[rule_format, of 0] Suc have 0: "\<not> sequential_stops env opts nm l i"
      by simp
    have 1: "k' < length ls" using Cons.prems(1) Suc by simp
    have 2: "\<forall>j<k'. \<not> sequential_stops env opts nm (ls ! j) (Suc i + j)"
    proof (intro allI impI)
      fix j assume "j < k'"
      then have "Suc j < k" using Suc by simp
      from Cons.prems(2)[rule_format, OF this]
      show "\<not> sequential_stops env opts nm (ls ! j) (Suc i + j)" by simp
    qed
    have 3: "sequential_stops env opts nm (ls ! k') (Suc i + k')" using Cons.prems(3) Suc by simp
    show ?thesis unfolding sequential_go[OF 0] using Cons.IH[OF 1 2 3] Suc by simp
  qed
qed

lemma async_failures_append:
  "async_failures env opts nm (xs @ ys) i =
     async_failures env opts nm xs i @ async_failures env opts nm ys (i + length xs)"
  by (induction xs arbitrary: i) simp_all

lemma async_failures_fulfilled:
  "\<forall>j<length ls. try_outcome env opts (ls ! j) (i + j) = Some Fulfilled \<Longrightarrow>
   async_failures env opts nm ls i = []"
proof (induction ls arbitrary: i)
  case Nil
  show ?case by simp
next
  case (Cons l ls)
  from Cons.prems[rule_format, of 0] have 0: "try_outcome env opts l i = Some Fulfilled" by simp
  have "\<forall>j<length ls. try_outcome env opts (ls ! j) (Suc i + j) = Some Fulfilled"
  proof (intro allI impI)
    fix j assume "j < length ls"
    then have "Suc j < length (l # ls)" by simp
    from Cons.prems[rule_format, OF this]
    show "try_outcome env opts (ls ! j) (Suc i + j) = Some Fulfilled" by simp
  qed
  from Cons.IH[OF this] 0 show ?case by simp
qed

subsection \<open>Concurrent dispatch\<close>

lemma start_all_Cons:
  "start_all env opts nm (l # ls) i s =
     (fst (runOne_start env opts nm l i s) #
        fst (start_all env opts nm ls (Suc i) (snd (runOne_start env opts nm l i s))),
      snd (start_all env opts nm ls (Suc i) (snd (runOne_start env opts nm l i s))))"
  by (simp split: prod.splits)

lemma start_all_invoked: "invoked (snd (start_all env opts nm ls i s)) = invoked s @ ls"
  by (induction ls arbitrary: i s)
     (simp_all add: start_all_Cons runOne_start_invoked del: start_all.simps(2))

lemma start_all_reports:
  "reports (snd (start_all env opts nm ls i s)) =
     reports s @ (if onError env = None then [] else sync_failures env nm ls i)"
proof (induction ls arbitrary: i s)
  case Nil
  show ?case by simp
next
  case (Cons l ls)
  show ?case
    unfolding start_all_Cons snd_conv Cons.IH runOne_start_reports
    by (subst (2) sync_failures_Cons) simp
qed

lemma start_all_length: "length (fst (start_all env opts nm ls i s)) = length ls"
  by (induction ls arbitrary: i s) (simp_all add: start_all_Cons del: start_all.simps(2))

lemma start_all_nth:
  "j < length ls \<Longrightarrow> fst (start_all env opts nm ls i s) ! j = start_task env opts nm (ls ! j) (i + j)"
proof (induction ls arbitrary: i s j)
  case Nil
  then show ?case by simp
next
  case (Cons l ls)
  show ?case
  proof (cases j)
    case 0
    then show ?thesis by (simp add: start_all_Cons runOne_start_fst del: start_all.simps(2))
  next
    case (Suc j')
    then have "j' < length ls" using Cons.prems by simp
    from Cons.IH[OF this] show ?thesis
      using Suc by (simp add: start_all_Cons del: start_all.simps(2))
  qed
qed

lemma sync_failures_filter:
  "filter (\<lambda>r. snd (snd r) = j) (sync_failures env nm ls i) =
     (if i \<le> j \<and> j < i + length ls
      then (case completion (handler env (ls ! (j - i)) j) of
              Throws e \<Rightarrow> [(e, nm, j)]
            | Returns \<Rightarrow> [])
      else [])"
proof (induction ls arbitrary: i)
  case Nil
  show ?case by auto
next
  case (Cons l ls)
  show ?case
  proof (cases "j = i")
    case True
    then show ?thesis using Cons.IH[of "Suc i"]
      by (simp split: completion.splits)
  next
    case False
    then have "filter (\<lambda>r. snd (snd r) = j) (sync_failures env nm [l] i) = []"
      by (simp split: completion.splits)
    moreover have "i \<le> j \<and> j < i + length (l # ls) \<longleftrightarrow> Suc i \<le> j \<and> j < Suc i + length ls"
      using False by auto
    moreover have "Suc i \<le> j \<Longrightarrow> (l # ls) ! (j - i) = ls ! (j - Suc i)"
      by (simp add: Suc_diff_le)
    ultimately show ?thesis
      using Cons.IH[of "Suc i"]
      by (subst sync_failures_Cons) (auto simp del: sync_failures.simps)
  qed
qed

lemma concurrent_Nil:
  "concurrent env opts nm ls [] s =
     \<lparr> mgr = mgr (snd (start_all env opts nm ls 0 s)),
       invoked = invoked (snd (start_all env opts nm ls 0 s)),
       reports = reports (snd (start_all env opts nm ls 0 s)),
       tasks = fst (start_all env opts nm ls 0 s),
       joint = join_start (fst (start_all env opts nm ls 0 s)) \<rparr>"
  by (simp add: concurrent_def split: prod.splits)

lemma concurrent_snoc:
  "concurrent env opts nm ls (sched @ [x]) s =
     resume env opts nm x (concurrent env opts nm ls sched s)"
  by (simp add: concurrent_def split: prod.splits)

lemma resume_idle:
  "\<not> (x < length (tasks c) \<and> (\<exists>v. tasks c ! x = Awaiting (Some v))) \<Longrightarrow>
   resume env opts nm x c = c"
  by (auto simp: resume_def split: task.splits option.splits)

lemma truncate_fields:
  "mgr (dispatch.truncate c) = mgr c" "invoked (dispatch.truncate c) = invoked c"
  "reports (dispatch.truncate c) = reports c"
  by (simp_all add: dispatch.defs)

lemma resume_step:
  assumes "x < length (tasks c)" and "tasks c ! x = Awaiting (Some v)"
  shows "invoked (resume env opts nm x c) = invoked c"
    and "tasks (resume env opts nm x c) =
           (tasks c)[x := Done (case v of Fulfilled \<Rightarrow> Fulfilled
                                | Rejected e \<Rightarrow> caught env opts nm x e)]"
    and "reports (resume env opts nm x c) =
           reports c @ (case v of
                          Fulfilled \<Rightarrow> []
                        | Rejected e \<Rightarrow> if onError env = None then [] else [(e, nm, x)])"
    and "joint (resume env opts nm x c) =
           (case joint c of
              Some j \<Rightarrow> Some j
            | None \<Rightarrow>
                (case (case v of Fulfilled \<Rightarrow> Fulfilled | Rejected e \<Rightarrow> caught env opts nm x e) of
                   Rejected e \<Rightarrow> Some (Rejected e)
                 | Fulfilled \<Rightarrow>
                     if all_fulfilled ((tasks c)[x := Done Fulfilled])
                     then Some Fulfilled else None))"
proof -
  let ?p = "runOne_resume env opts nm x v (dispatch.truncate c)"
  obtain r s' where p: "?p = (r, s')" by (cases ?p)
  have r: "r = (case v of Fulfilled \<Rightarrow> Fulfilled | Rejected e \<Rightarrow> caught env opts nm x e)"
    using runOne_resume_fst[of env opts nm x v "dispatch.truncate c"] p by simp
  have i: "invoked s' = invoked c"
    using runOne_resume_invoked[of env opts nm x v "dispatch.truncate c"] p
    by (simp add: truncate_fields)
  have q: "reports s' = reports c @ (case v of
                          Fulfilled \<Rightarrow> []
                        | Rejected e \<Rightarrow> if onError env = None then [] else [(e, nm, x)])"
    using runOne_resume_reports[of env opts nm x v "dispatch.truncate c"] p
    by (simp add: truncate_fields)
  have e: "resume env opts nm x c =
      \<lparr> mgr = mgr s', invoked = invoked s', reports = reports s',
        tasks = (tasks c)[x := Done r],
        joint = (case joint c of
                   Some j \<Rightarrow> Some j
                 | None \<Rightarrow>
                     (case r of
                        Rejected e \<Rightarrow> Some (Rejected e)
                      | Fulfilled \<Rightarrow>
                          if all_fulfilled ((tasks c)[x := Done r]) then Some Fulfilled
                          else None)) \<rparr>"
    using assms p by (simp add: resume_def Let_def)
  show "invoked (resume env opts nm x c) = invoked c" unfolding e by (simp add: i)
  show "tasks (resume env opts nm x c) =
           (tasks c)[x := Done (case v of Fulfilled \<Rightarrow> Fulfilled
                                | Rejected e \<Rightarrow> caught env opts nm x e)]"
    unfolding e by (simp add: r)
  show "reports (resume env opts nm x c) =
           reports c @ (case v of
                          Fulfilled \<Rightarrow> []
                        | Rejected e \<Rightarrow> if onError env = None then [] else [(e, nm, x)])"
    unfolding e by (simp add: q)
  show "joint (resume env opts nm x c) =
           (case joint c of
              Some j \<Rightarrow> Some j
            | None \<Rightarrow>
                (case (case v of Fulfilled \<Rightarrow> Fulfilled | Rejected e \<Rightarrow> caught env opts nm x e) of
                   Rejected e \<Rightarrow> Some (Rejected e)
                 | Fulfilled \<Rightarrow>
                     if all_fulfilled ((tasks c)[x := Done Fulfilled])
                     then Some Fulfilled else None))"
    unfolding e r[symmetric] by (cases r) (simp_all split: option.splits)
qed

lemma resume_invoked: "invoked (resume env opts nm x c) = invoked c"
proof (cases "x < length (tasks c) \<and> (\<exists>v. tasks c ! x = Awaiting (Some v))")
  case True
  then obtain v where "x < length (tasks c)" "tasks c ! x = Awaiting (Some v)" by blast
  then show ?thesis by (rule resume_step(1))
next
  case False
  then show ?thesis by (simp add: resume_idle)
qed

lemma resume_active:
  assumes "\<forall>i e. caught env opts nm i e = Fulfilled"
    and "x < length (tasks c)" and "tasks c ! x = Awaiting (Some v)"
  shows "invoked (resume env opts nm x c) = invoked c"
    and "tasks (resume env opts nm x c) = (tasks c)[x := Done Fulfilled]"
    and "reports (resume env opts nm x c) =
           reports c @ (case v of
                          Rejected e \<Rightarrow> if onError env = None then [] else [(e, nm, x)]
                        | Fulfilled \<Rightarrow> [])"
    and "joint (resume env opts nm x c) =
           (case joint c of
              Some j \<Rightarrow> Some j
            | None \<Rightarrow> if all_fulfilled ((tasks c)[x := Done Fulfilled])
                      then Some Fulfilled else None)"
  using resume_step[OF assms(2,3), of env opts nm] assms(1)
  by (simp_all split: settlement.splits)

lemma completed_snoc:
  "completed env opts ls (sched @ [x]) j \<longleftrightarrow>
     completed env opts ls sched j \<or>
     (j = x \<and> j < length ls \<and> completion (handler env (ls ! j) j) = Returns \<and>
      wrapped env opts (ls ! j) j \<noteq> None)"
  by (auto simp: completed_def split: completion.splits)

lemma completed_Nil:
  "completed env opts ls [] j \<longleftrightarrow>
     j < length ls \<and> completion (handler env (ls ! j) j) \<noteq> Returns"
  by (auto simp: completed_def split: completion.splits)

lemma concurrent_invoked: "invoked (concurrent env opts nm ls sched s) = invoked s @ ls"
proof (induction sched rule: rev_induct)
  case Nil
  show ?case by (simp add: concurrent_Nil start_all_invoked)
next
  case (snoc x xs)
  then show ?case by (simp add: concurrent_snoc resume_invoked)
qed

lemma concurrent_tasks:
  assumes cr: "\<forall>i e. caught env opts nm i e = Fulfilled"
  shows "length (tasks (concurrent env opts nm ls sched s)) = length ls \<and>
         (\<forall>j<length ls. tasks (concurrent env opts nm ls sched s) ! j =
            (if completed env opts ls sched j then Done Fulfilled
             else Awaiting (wrapped env opts (ls ! j) j)))"
proof (induction sched rule: rev_induct)
  case Nil
  show ?case
    by (auto simp: concurrent_Nil start_all_length start_all_nth start_task_def completed_Nil cr
        split: completion.splits)
next
  case (snoc x xs)
  let ?c = "concurrent env opts nm ls xs s"
  from snoc have len: "length (tasks ?c) = length ls"
    and nth: "\<And>j. j < length ls \<Longrightarrow> tasks ?c ! j =
            (if completed env opts ls xs j then Done Fulfilled
             else Awaiting (wrapped env opts (ls ! j) j))"
    by auto
  show ?case
  proof (cases "x < length (tasks ?c) \<and> (\<exists>v. tasks ?c ! x = Awaiting (Some v))")
    case True
    then obtain v where x: "x < length (tasks ?c)" and v: "tasks ?c ! x = Awaiting (Some v)"
      by blast
    have t: "tasks (concurrent env opts nm ls (xs @ [x]) s) = (tasks ?c)[x := Done Fulfilled]"
      using resume_active(2)[OF cr x v] by (simp add: concurrent_snoc)
    from nth[of x] x v len have nx: "\<not> completed env opts ls xs x"
      and wx: "wrapped env opts (ls ! x) x = Some v"
      by (auto split: if_splits)
    from nx x len have rx: "completion (handler env (ls ! x) x) = Returns"
      by (auto simp: completed_def split: completion.splits)
    show ?thesis
      unfolding t using len nth x wx rx
      by (auto simp: completed_snoc nth_list_update)
  next
    case False
    then have t: "concurrent env opts nm ls (xs @ [x]) s = ?c"
      by (simp add: concurrent_snoc resume_idle)
    have "\<And>j. j < length ls \<Longrightarrow> completed env opts ls (xs @ [x]) j = completed env opts ls xs j"
    proof -
      fix j assume j: "j < length ls"
      show "completed env opts ls (xs @ [x]) j = completed env opts ls xs j"
      proof (cases "j = x")
        case True
        with False j len nth[of x] show ?thesis
          by (auto simp: completed_snoc split: if_splits)
      next
        case False
        then show ?thesis by (auto simp: completed_snoc)
      qed
    qed
    then show ?thesis unfolding t using len nth by simp
  qed
qed

lemma concurrent_step_cases:
  assumes cr: "\<forall>i e. caught env opts nm i e = Fulfilled"
  obtains (active) v where "x < length ls" "\<not> completed env opts ls xs x"
      "completion (handler env (ls ! x) x) = Returns" "wrapped env opts (ls ! x) x = Some v"
      "x < length (tasks (concurrent env opts nm ls xs s))"
      "tasks (concurrent env opts nm ls xs s) ! x = Awaiting (Some v)"
    | (idle) "concurrent env opts nm ls (xs @ [x]) s = concurrent env opts nm ls xs s"
      "\<And>j. completed env opts ls (xs @ [x]) j = completed env opts ls xs j"
proof -
  let ?c = "concurrent env opts nm ls xs s"
  from concurrent_tasks[OF cr, where ls = ls and sched = xs and s = s]
  have len: "length (tasks ?c) = length ls"
    and nth: "\<And>j. j < length ls \<Longrightarrow> tasks ?c ! j =
            (if completed env opts ls xs j then Done Fulfilled
             else Awaiting (wrapped env opts (ls ! j) j))"
    by auto
  show thesis
  proof (cases "x < length (tasks ?c) \<and> (\<exists>v. tasks ?c ! x = Awaiting (Some v))")
    case True
    then obtain v where x: "x < length (tasks ?c)" and v: "tasks ?c ! x = Awaiting (Some v)"
      by blast
    from nth[of x] x v len have nx: "\<not> completed env opts ls xs x"
      and wx: "wrapped env opts (ls ! x) x = Some v"
      by (auto split: if_splits)
    from nx x len have rx: "completion (handler env (ls ! x) x) = Returns"
      by (auto simp: completed_def split: completion.splits)
    from x len nx rx wx v show thesis by (intro active) auto
  next
    case False
    then have t: "concurrent env opts nm ls (xs @ [x]) s = ?c"
      by (simp add: concurrent_snoc resume_idle)
    have "\<And>j. completed env opts ls (xs @ [x]) j = completed env opts ls xs j"
    proof -
      fix j
      show "completed env opts ls (xs @ [x]) j = completed env opts ls xs j"
      proof (cases "j = x \<and> j < length ls")
        case True
        with False len nth[of x] show ?thesis
          by (auto simp: completed_snoc split: if_splits)
      next
        case False
        then show ?thesis by (auto simp: completed_snoc)
      qed
    qed
    with t show thesis by (rule idle)
  qed
qed

lemma all_fulfilled_nth: "all_fulfilled ts \<longleftrightarrow> (\<forall>j<length ts. ts ! j = Done Fulfilled)"
  by (simp add: all_fulfilled_def list_all_length)

lemma first_rejection_None:
  "\<forall>t\<in>set ts. \<forall>e. t \<noteq> Done (Rejected e) \<Longrightarrow> first_rejection ts = None"
proof -
  assume a: "\<forall>t\<in>set ts. \<forall>e. t \<noteq> Done (Rejected e)"
  have "filter (\<lambda>t. case t of Done (Rejected e) \<Rightarrow> True | _ \<Rightarrow> False) ts = []"
    using a by (auto simp: filter_empty_conv split: task.splits settlement.splits)
  then show ?thesis by (simp add: first_rejection_def)
qed

lemma concurrent_joint_tasks:
  assumes cr: "\<forall>i e. caught env opts nm i e = Fulfilled"
  shows "joint (concurrent env opts nm ls sched s) =
     (if all_fulfilled (tasks (concurrent env opts nm ls sched s)) then Some Fulfilled else None)"
proof (induction sched rule: rev_induct)
  case Nil
  have "\<forall>t\<in>set (fst (start_all env opts nm ls 0 s)). \<forall>e. t \<noteq> Done (Rejected e)"
  proof
    fix t assume "t \<in> set (fst (start_all env opts nm ls 0 s))"
    then obtain j where "j < length ls" "t = start_task env opts nm (ls ! j) (0 + j)"
      by (metis in_set_conv_nth start_all_length start_all_nth)
    then show "\<forall>e. t \<noteq> Done (Rejected e)"
      by (auto simp: start_task_def cr split: completion.splits)
  qed
  then have "first_rejection (fst (start_all env opts nm ls 0 s)) = None"
    by (rule first_rejection_None)
  then show ?case by (simp add: concurrent_Nil join_start_def)
next
  case (snoc x xs)
  let ?c = "concurrent env opts nm ls xs s"
  show ?case
  proof (rule concurrent_step_cases[OF cr, where x = x and ls = ls and xs = xs and s = s])
    fix v
    assume x: "x < length (tasks ?c)" and v: "tasks ?c ! x = Awaiting (Some v)"
    then have "\<not> all_fulfilled (tasks ?c)" by (auto simp: all_fulfilled_nth)
    then have "joint ?c = None" using snoc by simp
    then show ?thesis
      using resume_active(2,4)[OF cr x v] by (simp add: concurrent_snoc)
  next
    assume "concurrent env opts nm ls (xs @ [x]) s = ?c"
    then show ?thesis using snoc by simp
  qed
qed

lemma concurrent_joint:
  assumes cr: "\<forall>i e. caught env opts nm i e = Fulfilled"
  shows "joint (concurrent env opts nm ls sched s) =
     (if list_all (completed env opts ls sched) [0..<length ls] then Some Fulfilled else None)"
proof -
  let ?c = "concurrent env opts nm ls sched s"
  from concurrent_tasks[OF cr, where ls = ls and sched = sched and s = s]
  have len: "length (tasks ?c) = length ls"
    and nth: "\<And>j. j < length ls \<Longrightarrow> tasks ?c ! j =
            (if completed env opts ls sched j then Done Fulfilled
             else Awaiting (wrapped env opts (ls ! j) j))"
    by auto
  have "all_fulfilled (tasks ?c) \<longleftrightarrow> (\<forall>j<length ls. completed env opts ls sched j)"
    unfolding all_fulfilled_nth len using nth by auto
  also have "\<dots> \<longleftrightarrow> list_all (completed env opts ls sched) [0..<length ls]"
    by (auto simp: list_all_iff)
  finally show ?thesis by (simp add: concurrent_joint_tasks[OF cr])
qed

lemma concurrent_reports:
  assumes cr: "\<forall>i e. caught env opts nm i e = Fulfilled"
  shows "filter (\<lambda>r. snd (snd r) = j) (reports (concurrent env opts nm ls sched s)) =
     filter (\<lambda>r. snd (snd r) = j) (reports s) @
     (if onError env \<noteq> None \<and> completed env opts ls sched j
      then (case try_outcome env opts (ls ! j) j of
              Some (Rejected e) \<Rightarrow> [(e, nm, j)]
            | _ \<Rightarrow> [])
      else [])"
proof (induction sched rule: rev_induct)
  case Nil
  show ?case
    by (auto simp: concurrent_Nil start_all_reports sync_failures_filter completed_Nil
        try_outcome_def split: completion.splits)
next
  case (snoc x xs)
  let ?c = "concurrent env opts nm ls xs s"
  show ?case
  proof (rule concurrent_step_cases[OF cr, where x = x and ls = ls and xs = xs and s = s])
    fix v
    assume x: "x < length (tasks ?c)" and v: "tasks ?c ! x = Awaiting (Some v)"
      and xl: "x < length ls" and nx: "\<not> completed env opts ls xs x"
      and rx: "completion (handler env (ls ! x) x) = Returns"
      and wx: "wrapped env opts (ls ! x) x = Some v"
    have r: "reports (concurrent env opts nm ls (xs @ [x]) s) =
        reports ?c @ (case v of Rejected e \<Rightarrow> if onError env = None then [] else [(e, nm, x)]
                      | Fulfilled \<Rightarrow> [])"
      using resume_active(3)[OF cr x v] by (simp add: concurrent_snoc)
    have tx: "try_outcome env opts (ls ! x) x = Some v"
      by (simp add: try_outcome_def rx wx)
    show ?thesis
    proof (cases "j = x")
      case True
      then show ?thesis
        unfolding r using snoc nx xl rx wx tx
        by (auto simp: completed_snoc split: settlement.splits)
    next
      case False
      then show ?thesis
        unfolding r using snoc
        by (auto simp: completed_snoc split: settlement.splits)
    qed
  next
    assume "concurrent env opts nm ls (xs @ [x]) s = ?c"
      and "\<And>j. completed env opts ls (xs @ [x]) j = completed env opts ls xs j"
    then show ?thesis using snoc by simp
  qed
qed

subsection \<open>\<open>emitAsync\<close> in either mode\<close>

lemma snapshot_members: "snapshot m nm = members m nm @ members m ''*''"
  by (simp add: snapshot_def members_def split: option.splits)

lemma emitAsync_sequential:
  "mode_of opts = ''sequential'' \<Longrightarrow>
   emitAsync env m ev opts sched =
     sequential env opts (trim (name ev)) (snapshot m (trim (name ev))) 0
       \<lparr> mgr = m, invoked = [], reports = [] \<rparr>"
  by (simp add: emitAsync_def Let_def)

lemma emitAsync_concurrent:
  "mode_of opts \<noteq> ''sequential'' \<Longrightarrow>
   emitAsync env m ev opts sched =
     (joint (concurrent env opts (trim (name ev)) (snapshot m (trim (name ev))) sched
               \<lparr> mgr = m, invoked = [], reports = [] \<rparr>),
      dispatch.truncate
        (concurrent env opts (trim (name ev)) (snapshot m (trim (name ev))) sched
               \<lparr> mgr = m, invoked = [], reports = [] \<rparr>))"
  by (simp add: emitAsync_def Let_def)

lemma caught_returns: "sink_returns env \<Longrightarrow> caught env opts nm i e = catch_result opts e"
  by (simp add: caught_def sink_returns_throws)

lemma caught_concurrent:
  "sink_returns env \<Longrightarrow> mode_of opts \<noteq> ''sequential'' \<Longrightarrow>
   \<forall>i e. caught env opts nm i e = Fulfilled"
  by (simp add: caught_returns catch_result_def)

lemma caught_continue:
  "sink_returns env \<Longrightarrow> \<not> stopOnError_of opts \<Longrightarrow> caught env opts nm i e = Fulfilled"
  by (simp add: caught_returns catch_result_def)

lemma caught_stop:
  "mode_of opts = ''sequential'' \<Longrightarrow> stopOnError_of opts \<Longrightarrow>
   caught env opts nm i e = Rejected (case sink_throws env e nm i of None \<Rightarrow> e | Some x \<Rightarrow> x)"
  by (simp add: caught_def catch_result_def split: option.splits)

lemma truncate_invoked: "invoked (dispatch.truncate c) = invoked c"
  by (simp add: dispatch.defs)

lemma truncate_reports: "reports (dispatch.truncate c) = reports c"
  by (simp add: dispatch.defs)

subsection \<open>\<open>stopOnError\<close> is not read outside sequential mode\<close>

lemma mode_of_stopOnError: "mode_of (opts\<lparr> stopOnError := b \<rparr>) = mode_of opts"
  by (simp add: mode_of_def)

lemma wrapped_stopOnError: "wrapped env (opts\<lparr> stopOnError := b \<rparr>) = wrapped env opts"
  by (intro ext) (simp add: wrapped_def)

lemma runOne_catch_stopOnError:
  "mode_of opts \<noteq> ''sequential'' \<Longrightarrow>
   runOne_catch env (opts\<lparr> stopOnError := b \<rparr>) = runOne_catch env opts"
  by (intro ext)
     (simp add: runOne_catch_def mode_of_stopOnError split: prod.splits option.splits)

lemma runOne_start_stopOnError:
  "mode_of opts \<noteq> ''sequential'' \<Longrightarrow>
   runOne_start env (opts\<lparr> stopOnError := b \<rparr>) = runOne_start env opts"
  by (intro ext)
     (simp add: runOne_start_def runOne_catch_stopOnError wrapped_stopOnError
        split: prod.splits option.splits)

lemma runOne_resume_stopOnError:
  "mode_of opts \<noteq> ''sequential'' \<Longrightarrow>
   runOne_resume env (opts\<lparr> stopOnError := b \<rparr>) = runOne_resume env opts"
  by (intro ext) (simp add: runOne_resume_def runOne_catch_stopOnError split: settlement.splits)

lemma start_all_stopOnError:
  "mode_of opts \<noteq> ''sequential'' \<Longrightarrow>
   start_all env (opts\<lparr> stopOnError := b \<rparr>) nm ls i s = start_all env opts nm ls i s"
  by (induction ls arbitrary: i s) (simp_all add: runOne_start_stopOnError)

lemma resume_stopOnError:
  "mode_of opts \<noteq> ''sequential'' \<Longrightarrow>
   resume env (opts\<lparr> stopOnError := b \<rparr>) = resume env opts"
  by (intro ext)
     (simp add: resume_def runOne_resume_stopOnError split: task.splits option.splits)

lemma concurrent_stopOnError:
  "mode_of opts \<noteq> ''sequential'' \<Longrightarrow>
   concurrent env (opts\<lparr> stopOnError := b \<rparr>) nm ls sched s = concurrent env opts nm ls sched s"
  by (simp add: concurrent_def start_all_stopOnError resume_stopOnError)

lemma emitAsync_stopOnError:
  "mode_of opts \<noteq> ''sequential'' \<Longrightarrow>
   emitAsync env m ev (opts\<lparr> stopOnError := b \<rparr>) sched = emitAsync env m ev opts sched"
  by (simp add: emitAsync_def mode_of_stopOnError concurrent_stopOnError)

lemma list_all_upt: "list_all P [0..<n] \<Longrightarrow> \<forall>j<n. P j"
  by (simp add: list_all_iff)

section \<open>The claims\<close>

text \<open>
  Claim C9. On any registry, a second \<open>register(K, L)\<close> changes nothing at all: the
  registry after two calls is the registry after one. The set under the trimmed key then
  holds \<open>L\<close> exactly once, and the listeners other than \<open>L\<close> under that key are the ones
  present before, in the same order. \<open>register\<close> has no failing path: it is a total
  function into registries.
\<close>

theorem register_twice:
  "register (register (build rs) K L) K L = register (build rs) K L \<and>
   count_list (members (register (register (build rs) K L) K L) (trim K)) L = 1 \<and>
   filter (\<lambda>x. x \<noteq> L) (members (register (register (build rs) K L) K L) (trim K)) =
     filter (\<lambda>x. x \<noteq> L) (members (build rs) (trim K))"
proof -
  have w: "wf_manager (build rs)" by (rule wf_build)
  have d: "distinct (members (build rs) (trim K))" using w by (rule distinct_members)
  have m1: "members (register (build rs) K L) (trim K) = set_add (members (build rs) (trim K)) L"
    using w by (simp add: members_register)
  show ?thesis
    by (simp add: register_idem m1 count_set_add d filter_set_add)
qed

text \<open>
  Claim C1 (the code departs from it). The claim is that for an event whose key is
  \<open>*\<close> each listener registered under \<open>*\<close> is invoked once. In the code both
  \<open>specific\<close> and \<open>wildcard\<close> are then the set stored under \<open>*\<close>, and neither \<open>emit\<close>
  nor \<open>emitAsync\<close> tests for this: the one listener under \<open>*\<close> of the example registry is
  invoked twice by \<open>emit\<close>, and twice by \<open>emitAsync\<close> in either mode.
\<close>

theorem wildcard_key_invoked_twice:
  "members registry_ex ''*'' = [30] \<and>
   invoked (snd (emit env_quiet registry_ex star_ev)) = [30, 30] \<and>
   invoked (snd (emitAsync env_quiet registry_ex star_ev (options_ex None None) [])) = [30, 30] \<and>
   invoked (snd (emitAsync env_quiet registry_ex star_ev (options_ex (Some ''parallel'') None) [])) = [30, 30]"
  by code_simp

text \<open>
  Claim C3 (the code departs from it). The claim is that a registration made while a
  dispatch runs is never invoked by that dispatch. \<open>emitAsync\<close> copies both sets before
  any handler runs, and listener 40, registered under \<open>*\<close> by the handler of listener 10,
  is not invoked. \<open>emit\<close> copies the wildcard set only when the specific pass is over:
  the same registration is invoked by the very \<open>emit\<close> call during which it was made,
  although it is not in the registry when the call begins.
\<close>

theorem emit_invokes_late_registration:
  "snapshot registry_ex (trim (name order_ev)) = [10, 20, 30] \<and>
   invoked (snd (emit env_late registry_ex order_ev)) = [10, 20, 30, 40] \<and>
   invoked (snd (emitAsync env_late registry_ex order_ev (options_ex None None) [])) = [10, 20, 30]"
  by code_simp

text \<open>
  Claim C2 (the code departs from it). The claim is that once the wrapped promise has
  settled, the timer is cleared and the listener is removed from the signal, whichever
  of the three won. The callbacks given to \<open>p.then\<close> do both. The timer's callback only
  rejects, and \<open>onAbort\<close> only clears the timer and rejects: when the timer fires first or
  the signal aborts first, the wrapper has settled and \<open>onAbort\<close> is still attached to
  the signal. It stays attached, also when the signal aborts later, until the wrapped
  promise settles, if it ever does.
\<close>

theorem withTimeout_keeps_subscription:
  "run_race [TimerFires] (withTimeout (Some (Finite 100)) (Some False)) =
     \<lparr> timer_armed = False, abort_subscribed = True, then_attached = True,
       settled = Some (Rejected Timeout) \<rparr> \<and>
   run_race [AbortFires] (withTimeout (Some (Finite 100)) (Some False)) =
     \<lparr> timer_armed = False, abort_subscribed = True, then_attached = True,
       settled = Some (Rejected Aborted) \<rparr> \<and>
   deliver AbortFires (run_race [TimerFires] (withTimeout (Some (Finite 100)) (Some False))) =
     \<lparr> timer_armed = False, abort_subscribed = True, then_attached = True,
       settled = Some (Rejected Timeout) \<rparr> \<and>
   run_race [Settles Fulfilled] (withTimeout (Some (Finite 100)) (Some False)) =
     \<lparr> timer_armed = False, abort_subscribed = False, then_attached = False,
       settled = Some Fulfilled \<rparr>"
  by (simp add: withTimeout_def truthy_def isFinite_def settle_def onAbort_def)

text \<open>
  Claim C4. In every dispatch the listeners registered under the event's key come
  first, in the order of their registration, and the wildcard listeners after them, in
  the order of theirs; the handlers are invoked in this order, with none left out in
  between.

  \<open>emit\<close> goes through \<open>K @ W\<close>, where \<open>K\<close> is the set under the key and \<open>W\<close> the wildcard
  set as the second pass finds it: \<open>W\<close> begins with the wildcard set the registry has at
  the call and is the beginning of the one it has at the end. The handlers invoked are
  those of \<open>K @ W\<close> up to and including the first invocation that ends \<open>emit\<close> (its
  handler throws and the sink throws in turn), and all of \<open>K @ W\<close> when the sink returns
  from every call.

  \<open>emitAsync\<close> goes through the snapshot, the set under the key followed by the wildcard
  set. Outside sequential mode every handler of the snapshot is started, in this
  order. The sequential loop invokes the handlers of the snapshot in this order up to
  and including the first invocation after which the promise of \<open>runOne\<close> is not
  fulfilled, and the whole snapshot when there is no such invocation.
\<close>

theorem dispatch_order:
  "(\<exists>W. prefix (members (build rs) ''*'') W \<and>
        prefix W (members (mgr (snd (emit env (build rs) ev))) ''*'') \<and>
        invoked (snd (emit env (build rs) ev)) =
          take (performed (emit_stops env (trim (name ev)))
                  (members (build rs) (trim (name ev)) @ W) 0)
            (members (build rs) (trim (name ev)) @ W) \<and>
        (sink_returns env \<longrightarrow>
           invoked (snd (emit env (build rs) ev)) = members (build rs) (trim (name ev)) @ W)) \<and>
   invoked (snd (emitAsync env (build rs) ev opts sched)) =
     (if mode_of opts = ''sequential''
      then take (performed (sequential_stops env opts (trim (name ev)))
                   (members (build rs) (trim (name ev)) @ members (build rs) ''*'') 0)
             (members (build rs) (trim (name ev)) @ members (build rs) ''*'')
      else members (build rs) (trim (name ev)) @ members (build rs) ''*'') \<and>
   (\<not> leaves (sequential_stops env opts (trim (name ev)))
         (members (build rs) (trim (name ev)) @ members (build rs) ''*'') 0 \<longrightarrow>
    invoked (snd (emitAsync env (build rs) ev opts sched)) =
      members (build rs) (trim (name ev)) @ members (build rs) ''*'')"
proof -
  let ?m = "build rs" and ?nm = "trim (name ev)"
  let ?W = "case listeners ?m ''*'' of
              Some a \<Rightarrow> heap (mgr (first_pass env ?m ?nm)) a
            | None \<Rightarrow> []"
  let ?snap = "members ?m ?nm @ members ?m ''*''"
  have w: "prefix (members ?m ''*'') ?W \<and> prefix ?W (members (mgr (snd (emit env ?m ev))) ''*'')"
    by (rule emit_wildcard)
  have i: "invoked (snd (emit env ?m ev)) =
      take (performed (emit_stops env ?nm) (members ?m ?nm @ ?W) 0) (members ?m ?nm @ ?W)"
    by (rule emit_invoked)
  have r: "invoked (snd (emit env ?m ev)) = members ?m ?nm @ ?W" if "sink_returns env"
    unfolding i sink_returns_emit_stops[OF that] performed_never by simp
  have a: "invoked (snd (emitAsync env ?m ev opts sched)) =
     (if mode_of opts = ''sequential''
      then take (performed (sequential_stops env opts ?nm) ?snap 0) ?snap else ?snap)"
  proof (cases "mode_of opts = ''sequential''")
    case True
    show ?thesis
      unfolding emitAsync_sequential[OF True] sequential_invoked snapshot_members
      using True by simp
  next
    case False
    show ?thesis
      unfolding emitAsync_concurrent[OF False] snd_conv truncate_invoked concurrent_invoked
        snapshot_members
      using False by simp
  qed
  have f: "invoked (snd (emitAsync env ?m ev opts sched)) = ?snap"
    if "\<not> leaves (sequential_stops env opts ?nm) ?snap 0"
    unfolding a performed_full[OF that] by simp
  from w i r a f show ?thesis by blast
qed

theorem dispatch_order_witness:
  "invoked (snd (emit env_throw (build [(''order'', 10), (''order'', 20), (''*'', 30)]) order_ev)) =
     [10, 20] @ [30] \<and>
   invoked (snd (emitAsync env_quiet (build [(''order'', 10), (''order'', 20), (''*'', 30)])
      order_ev (options_ex None None) [])) = [10, 20, 30] \<and>
   invoked (snd (emitAsync env_boom (build [(''order'', 10), (''order'', 20), (''*'', 30)])
      order_ev (options_ex (Some ''parallel'') None) [])) = [10, 20, 30] \<and>
   invoked (snd (emitAsync env_boom (build [(''order'', 10), (''order'', 20), (''*'', 30)])
      order_ev (options_ex None (Some True)) [])) = [10, 20] \<and>
   invoked (snd (emit env_sink (build [(''order'', 10), (''order'', 20), (''*'', 30)]) order_ev)) =
     [10]"
proof -
  let ?rs = "[(''order'', 10), (''order'', 20), (''*'', 30)]"
  let ?nm = "trim (name order_ev)"
  let ?snap = "members (build ?rs) ?nm @ members (build ?rs) ''*''"
  have k: "members (build ?rs) ?nm = [10, 20]" by code_simp
  have w: "members (build ?rs) ''*'' = [30]" by code_simp
  have wf: "members (mgr (snd (emit env_throw (build ?rs) order_ev))) ''*'' = [30]" by code_simp
  have sr: "sink_returns env_throw"
    by (simp add: sink_returns_def sink_throws_def env_throw_def quiet_def)
  obtain W where W: "prefix [30] W" "prefix W [30]"
    "invoked (snd (emit env_throw (build ?rs) order_ev)) = [10, 20] @ W"
    using dispatch_order[of ?rs env_throw order_ev "options_ex None None" "[]"] sr
    unfolding k w wf by blast
  from W(1,2) have "W = [30]" by (rule prefix_order.antisym[OF _ _, symmetric])
  with W(3) have 1: "invoked (snd (emit env_throw (build ?rs) order_ev)) = [10, 20] @ [30]"
    by simp
  have e2: "(if mode_of (options_ex None None) = ''sequential''
             then take (performed (sequential_stops env_quiet (options_ex None None) ?nm) ?snap 0) ?snap
             else ?snap) = [10, 20, 30]"
    by code_simp
  have e3: "(if mode_of (options_ex (Some ''parallel'') None) = ''sequential''
             then take (performed (sequential_stops env_boom (options_ex (Some ''parallel'') None) ?nm)
                          ?snap 0) ?snap
             else ?snap) = [10, 20, 30]"
    by code_simp
  have e4: "(if mode_of (options_ex None (Some True)) = ''sequential''
             then take (performed (sequential_stops env_boom (options_ex None (Some True)) ?nm)
                          ?snap 0) ?snap
             else ?snap) = [10, 20]"
    by code_simp
  have 2: "invoked (snd (emitAsync env_quiet (build ?rs) order_ev (options_ex None None) [])) =
      [10, 20, 30]"
    using dispatch_order[of ?rs env_quiet order_ev "options_ex None None" "[]"]
    unfolding e2 by blast
  have 3: "invoked (snd (emitAsync env_boom (build ?rs) order_ev
      (options_ex (Some ''parallel'') None) [])) = [10, 20, 30]"
    using dispatch_order[of ?rs env_boom order_ev "options_ex (Some ''parallel'') None" "[]"]
    unfolding e3 by blast
  have 4: "invoked (snd (emitAsync env_boom (build ?rs) order_ev
      (options_ex None (Some True)) [])) = [10, 20]"
    using dispatch_order[of ?rs env_boom order_ev "options_ex None (Some True)" "[]"]
    unfolding e4 by blast
  have es: "emit_stops env_sink ?nm 10 0" by code_simp
  obtain V where "invoked (snd (emit env_sink (build ?rs) order_ev)) =
      take (performed (emit_stops env_sink ?nm) ([10, 20] @ V) 0) ([10, 20] @ V)"
    using dispatch_order[of ?rs env_sink order_ev "options_ex None None" "[]"]
    unfolding k by blast
  then have 5: "invoked (snd (emit env_sink (build ?rs) order_ev)) = [10]"
    using es by simp
  from 1 2 3 4 5 show ?thesis by blast
qed

text \<open>
  Claim C7 as it is stated does not hold of \<open>emit\<close>. The sink is called inside the
  \<open>catch\<close> clause with no guard around the call: when listener 10 throws and the sink,
  called with that error, throws \<open>sink\<close>, the error leaves \<open>emit\<close> and reaches the
  caller, and neither listener 20 nor the wildcard listener 30 is invoked.
\<close>

theorem emit_raises_when_sink_throws:
  "members registry_ex (trim (name order_ev)) = [10, 20] \<and>
   members registry_ex ''*'' = [30] \<and>
   fst (emit env_sink registry_ex order_ev) = Some (Thrown ''sink'') \<and>
   invoked (snd (emit env_sink registry_ex order_ev)) = [10]"
  by code_simp

text \<open>
  Claim C7, amended: the sink, if one is set, returns from every call. Then no error
  leaves \<open>emit\<close>; every listener under the key is invoked and after them every wildcard
  listener, whichever handlers throw; and the calls made to the sink are, in order, one
  for each invocation whose handler throws, with the error, the trimmed event name and
  the number of the invocation counted from 0 over both passes. With no sink set no
  call is made and the errors are dropped.
\<close>

theorem emit_isolates_failures:
  assumes "sink_returns env"
  shows "fst (emit env (build rs) ev) = None \<and>
         (\<exists>W. prefix (members (build rs) ''*'') W \<and>
              prefix W (members (mgr (snd (emit env (build rs) ev))) ''*'') \<and>
              invoked (snd (emit env (build rs) ev)) = members (build rs) (trim (name ev)) @ W) \<and>
         reports (snd (emit env (build rs) ev)) =
           (if onError env = None then []
            else sync_failures env (trim (name ev)) (invoked (snd (emit env (build rs) ev))) 0)"
proof -
  let ?m = "build rs" and ?nm = "trim (name ev)"
  let ?W = "case listeners ?m ''*'' of
              Some a \<Rightarrow> heap (mgr (first_pass env ?m ?nm)) a
            | None \<Rightarrow> []"
  have "\<not> leaves (emit_stops env ?nm) (members ?m ?nm @ ?W) 0"
    unfolding sink_returns_emit_stops[OF assms] leaves_never by simp
  then have 1: "fst (emit env ?m ev) = None" using emit_raises[of env ?m ev] by blast
  have w: "prefix (members ?m ''*'') ?W \<and> prefix ?W (members (mgr (snd (emit env ?m ev))) ''*'')"
    by (rule emit_wildcard)
  have "invoked (snd (emit env ?m ev)) =
      take (performed (emit_stops env ?nm) (members ?m ?nm @ ?W) 0) (members ?m ?nm @ ?W)"
    by (rule emit_invoked)
  then have i: "invoked (snd (emit env ?m ev)) = members ?m ?nm @ ?W"
    unfolding sink_returns_emit_stops[OF assms] performed_never by simp
  from 1 w i emit_reports[of env ?m ev] show ?thesis by blast
qed

theorem emit_isolates_failures_witness:
  "fst (emit env_throw (build [(''order'', 10), (''order'', 20), (''*'', 30)]) order_ev) = None \<and>
   invoked (snd (emit env_throw (build [(''order'', 10), (''order'', 20), (''*'', 30)]) order_ev)) =
     [10, 20, 30] \<and>
   reports (snd (emit env_throw (build [(''order'', 10), (''order'', 20), (''*'', 30)]) order_ev)) =
     [(Thrown ''boom'', ''order'', 0)]"
proof -
  let ?rs = "[(''order'', 10), (''order'', 20), (''*'', 30)]"
  have sr: "sink_returns env_throw"
    by (simp add: sink_returns_def sink_throws_def env_throw_def quiet_def)
  note r = emit_isolates_failures[OF sr, of ?rs order_ev]
  have k: "members (build ?rs) (trim (name order_ev)) = [10, 20]" by code_simp
  have w: "members (build ?rs) ''*'' = [30]" by code_simp
  have wf: "members (mgr (snd (emit env_throw (build ?rs) order_ev))) ''*'' = [30]" by code_simp
  obtain W where W: "prefix [30] W" "prefix W [30]"
    "invoked (snd (emit env_throw (build ?rs) order_ev)) = [10, 20] @ W"
    using r unfolding k w wf by blast
  from W(1,2) have "W = [30]" by (rule prefix_order.antisym[OF _ _, symmetric])
  with W(3) have i: "invoked (snd (emit env_throw (build ?rs) order_ev)) = [10, 20, 30]"
    by simp
  have f: "(if onError env_throw = None then []
            else sync_failures env_throw (trim (name order_ev)) [10, 20, 30] 0) =
           [(Thrown ''boom'', ''order'', 0)]"
    by code_simp
  from r have "reports (snd (emit env_throw (build ?rs) order_ev)) =
      [(Thrown ''boom'', ''order'', 0)]"
    unfolding i f by blast
  with r i show ?thesis by blast
qed

text \<open>
  Claim C5 as it is stated does not hold of \<open>emitAsync\<close>. In the \<open>catch\<close> clause of
  \<open>runOne\<close> the sink is called, unguarded, before \<open>throw e\<close>: in sequential mode with
  \<open>stopOnError\<close> set, when listener 10 throws \<open>boom\<close> and the sink throws \<open>sink\<close>, the call
  is rejected with the sink's error and not with the listener's.
\<close>

theorem sequential_rejects_with_sink_error:
  "mode_of (options_ex None (Some True)) = ''sequential'' \<and>
   stopOnError_of (options_ex None (Some True)) \<and>
   try_outcome env_sink (options_ex None (Some True))
     (snapshot registry_ex (trim (name order_ev)) ! 0) 0 = Some (Rejected (Thrown ''boom'')) \<and>
   fst (emitAsync env_sink registry_ex order_ev (options_ex None (Some True)) []) =
     Some (Rejected (Thrown ''sink''))"
  by code_simp

text \<open>
  Claim C5, amended in the error of the rejection. In sequential mode with
  \<open>stopOnError\<close> set, let position \<open>i\<close> of the snapshot be the first whose outcome is a
  failure \<open>e\<close>, the outcomes before it being successes. Then the handlers invoked are
  exactly those at positions \<open>0\<close> to \<open>i\<close>; the sink, if set, is called once, with \<open>e\<close>,
  the trimmed event name and \<open>i\<close>; and the call is rejected, with \<open>e\<close> when the
  sink returns or is not set, and with what the sink throws when it throws.
\<close>

theorem sequential_stopOnError:
  assumes "mode_of opts = ''sequential''" and "stopOnError_of opts"
    and "i < length (snapshot m (trim (name ev)))"
    and "\<forall>j<i. try_outcome env opts (snapshot m (trim (name ev)) ! j) j = Some Fulfilled"
    and "try_outcome env opts (snapshot m (trim (name ev)) ! i) i = Some (Rejected e)"
  shows "fst (emitAsync env m ev opts sched) =
           Some (Rejected (case sink_throws env e (trim (name ev)) i of
                             None \<Rightarrow> e | Some x \<Rightarrow> x)) \<and>
         invoked (snd (emitAsync env m ev opts sched)) =
           take (Suc i) (snapshot m (trim (name ev))) \<and>
         reports (snd (emitAsync env m ev opts sched)) =
           (if onError env = None then [] else [(e, trim (name ev), i)])"
proof -
  let ?nm = "trim (name ev)"
  let ?snap = "snapshot m ?nm"
  let ?s0 = "\<lparr> mgr = m, invoked = [], reports = [] \<rparr>"
  have fate: "runOne_fate env opts ?nm (?snap ! i) i =
      Some (Rejected (case sink_throws env e ?nm i of None \<Rightarrow> e | Some x \<Rightarrow> x))"
    using assms(5) by (simp add: runOne_fate_def caught_stop[OF assms(1,2)])
  have go: "\<forall>j<i. \<not> sequential_stops env opts ?nm (?snap ! j) (0 + j)"
    using assms(4) by (simp add: sequential_stops_def runOne_fate_def)
  have st: "sequential_stops env opts ?nm (?snap ! i) (0 + i)"
    using fate by (simp add: sequential_stops_def)
  have p: "performed (sequential_stops env opts ?nm) ?snap 0 = Suc i"
    using assms(3) go st by (rule performed_first)
  have 1: "fst (sequential env opts ?nm ?snap 0 ?s0) =
      Some (Rejected (case sink_throws env e ?nm i of None \<Rightarrow> e | Some x \<Rightarrow> x))"
    using sequential_fst_first[OF assms(3) go st, of ?s0] fate by simp
  have 2: "invoked (snd (sequential env opts ?nm ?snap 0 ?s0)) = take (Suc i) ?snap"
    by (simp add: sequential_invoked p)
  have t: "take (Suc i) ?snap = take i ?snap @ [?snap ! i]"
    using assms(3) by (rule take_Suc_conv_app_nth)
  have "\<forall>j<length (take i ?snap). try_outcome env opts (take i ?snap ! j) (0 + j) = Some Fulfilled"
    using assms(3,4) by simp
  then have a: "async_failures env opts ?nm (take i ?snap) 0 = []"
    by (rule async_failures_fulfilled)
  have l: "length (take i ?snap) = i" using assms(3) by simp
  have b: "async_failures env opts ?nm (take (Suc i) ?snap) 0 = [(e, ?nm, i)]"
    unfolding t async_failures_append a l using assms(5) by simp
  have 3: "reports (snd (sequential env opts ?nm ?snap 0 ?s0)) =
      (if onError env = None then [] else [(e, ?nm, i)])"
    by (simp add: sequential_reports p b)
  from 1 2 3 show ?thesis unfolding emitAsync_sequential[OF assms(1)] by blast
qed

theorem sequential_stopOnError_witness:
  "fst (emitAsync env_boom registry_ex order_ev (options_ex None (Some True)) []) =
     Some (Rejected (Thrown ''boom'')) \<and>
   invoked (snd (emitAsync env_boom registry_ex order_ev (options_ex None (Some True)) [])) =
     [10, 20] \<and>
   reports (snd (emitAsync env_boom registry_ex order_ev (options_ex None (Some True)) [])) =
     [(Thrown ''boom'', ''order'', 1)] \<and>
   fst (emitAsync env_sink registry_ex order_ev (options_ex None (Some True)) []) =
     Some (Rejected (Thrown ''sink'')) \<and>
   invoked (snd (emitAsync env_sink registry_ex order_ev (options_ex None (Some True)) [])) = [10]"
proof -
  let ?opts = "options_ex None (Some True)"
  let ?snap = "snapshot registry_ex (trim (name order_ev))"
  have h1: "mode_of ?opts = ''sequential''" by code_simp
  have h2: "stopOnError_of ?opts" by code_simp
  have h3: "1 < length ?snap" by code_simp
  have "list_all (\<lambda>j. try_outcome env_boom ?opts (?snap ! j) j = Some Fulfilled) [0..<1]"
    by code_simp
  then have h4: "\<forall>j<1. try_outcome env_boom ?opts (?snap ! j) j = Some Fulfilled"
    by (rule list_all_upt)
  have h5: "try_outcome env_boom ?opts (?snap ! 1) 1 = Some (Rejected (Thrown ''boom''))"
    by code_simp
  have e0: "(case sink_throws env_boom (Thrown ''boom'') (trim (name order_ev)) 1 of
               None \<Rightarrow> Thrown ''boom'' | Some x \<Rightarrow> x) = Thrown ''boom''"
    by code_simp
  have e1: "take (Suc 1) ?snap = [10, 20]" by code_simp
  have e2: "(if onError env_boom = None then []
             else [(Thrown ''boom'', trim (name order_ev), 1::nat)]) =
      [(Thrown ''boom'', ''order'', 1)]"
    by (simp add: env_boom_def order_ev_def trim_def isWhiteSpace_def)
  have a: "fst (emitAsync env_boom registry_ex order_ev ?opts []) =
      Some (Rejected (Thrown ''boom'')) \<and>
    invoked (snd (emitAsync env_boom registry_ex order_ev ?opts [])) = [10, 20] \<and>
    reports (snd (emitAsync env_boom registry_ex order_ev ?opts [])) =
      [(Thrown ''boom'', ''order'', 1)]"
    using sequential_stopOnError[OF h1 h2 h3 h4 h5, of "[]"] unfolding e0 e1 e2 .
  have g3: "0 < length ?snap" by code_simp
  have g4: "\<forall>j<0. try_outcome env_sink ?opts (?snap ! j) j = Some Fulfilled" by simp
  have g5: "try_outcome env_sink ?opts (?snap ! 0) 0 = Some (Rejected (Thrown ''boom''))"
    by code_simp
  have f0: "(case sink_throws env_sink (Thrown ''boom'') (trim (name order_ev)) 0 of
               None \<Rightarrow> Thrown ''boom'' | Some x \<Rightarrow> x) = Thrown ''sink''"
    by code_simp
  have f1: "take (Suc 0) ?snap = [10]" by code_simp
  have b: "fst (emitAsync env_sink registry_ex order_ev ?opts []) =
      Some (Rejected (Thrown ''sink'')) \<and>
    invoked (snd (emitAsync env_sink registry_ex order_ev ?opts [])) = [10]"
    using sequential_stopOnError[OF h1 h2 g3 g4 g5, of "[]"] unfolding f0 f1 by blast
  from a b show ?thesis by blast
qed

text \<open>
  Claim C6 as it is stated does not hold of \<open>emitAsync\<close>. In sequential mode without
  \<open>stopOnError\<close>, when the promise of listener 10 rejects and the sink, called with that
  error, throws, the promise of \<open>runOne\<close> is rejected: the loop is left, listeners 20 and
  30 are not invoked and the call is rejected with the sink's error. And when the
  promise of listener 10 never settles and no timeout or signal is given, the loop
  stays suspended there: the call does not settle and listeners 20 and 30 are not
  invoked.
\<close>

theorem sequential_does_not_continue:
  "mode_of (options_ex (Some ''sequential'') None) = ''sequential'' \<and>
   \<not> stopOnError_of (options_ex (Some ''sequential'') None) \<and>
   snapshot registry_ex (trim (name order_ev)) = [10, 20, 30] \<and>
   list_all (\<lambda>j. try_outcome env_sink_later (options_ex (Some ''sequential'') None)
                    ([10, 20, 30] ! j) j \<noteq> None) [0..<3] \<and>
   fst (emitAsync env_sink_later registry_ex order_ev (options_ex (Some ''sequential'') None) []) =
     Some (Rejected (Thrown ''sink'')) \<and>
   invoked (snd (emitAsync env_sink_later registry_ex order_ev
                   (options_ex (Some ''sequential'') None) [])) = [10] \<and>
   try_outcome env_hang (options_ex (Some ''sequential'') None) 10 0 = None \<and>
   fst (emitAsync env_hang registry_ex order_ev (options_ex (Some ''sequential'') None) []) = None \<and>
   invoked (snd (emitAsync env_hang registry_ex order_ev
                   (options_ex (Some ''sequential'') None) [])) = [10]"
  by code_simp

text \<open>
  Claim C6, amended: the sink, if one is set, returns from every call, and the outcome
  of every invocation settles. Then in sequential mode with \<open>stopOnError\<close> false or
  absent the call is fulfilled, the handlers invoked are exactly those of the snapshot,
  each position once and in order, whatever the failures (a throw, a rejection, a
  timeout, an abort), and the sink, if set, is called once for each failure with its
  position.
\<close>

theorem sequential_continues:
  assumes "mode_of opts = ''sequential''" and "\<not> stopOnError_of opts"
    and "sink_returns env"
    and "\<forall>j<length (snapshot m (trim (name ev))).
           try_outcome env opts (snapshot m (trim (name ev)) ! j) j \<noteq> None"
  shows "fst (emitAsync env m ev opts sched) = Some Fulfilled \<and>
         invoked (snd (emitAsync env m ev opts sched)) = snapshot m (trim (name ev)) \<and>
         reports (snd (emitAsync env m ev opts sched)) =
           (if onError env = None then []
            else async_failures env opts (trim (name ev)) (snapshot m (trim (name ev))) 0)"
proof -
  let ?nm = "trim (name ev)"
  let ?snap = "snapshot m ?nm"
  let ?s0 = "\<lparr> mgr = m, invoked = [], reports = [] \<rparr>"
  have "\<forall>j<length ?snap. \<not> sequential_stops env opts ?nm (?snap ! j) (0 + j)"
    using assms(4)
    by (auto simp: sequential_stops_def runOne_fate_def caught_continue[OF assms(3,2)]
        split: option.splits settlement.splits)
  then have n: "\<not> leaves (sequential_stops env opts ?nm) ?snap 0" by (rule leaves_none)
  have p: "performed (sequential_stops env opts ?nm) ?snap 0 = length ?snap"
    using n by (rule performed_full)
  have 1: "fst (sequential env opts ?nm ?snap 0 ?s0) = Some Fulfilled"
    using n by (rule sequential_through)
  have 2: "invoked (snd (sequential env opts ?nm ?snap 0 ?s0)) = ?snap"
    by (simp add: sequential_invoked p)
  have 3: "reports (snd (sequential env opts ?nm ?snap 0 ?s0)) =
      (if onError env = None then [] else async_failures env opts ?nm ?snap 0)"
    by (simp add: sequential_reports p)
  from 1 2 3 show ?thesis unfolding emitAsync_sequential[OF assms(1)] by blast
qed

theorem sequential_continues_witness:
  "fst (emitAsync env_mixed registry_ex order_ev options_guarded []) = Some Fulfilled \<and>
   invoked (snd (emitAsync env_mixed registry_ex order_ev options_guarded [])) = [10, 20, 30] \<and>
   reports (snd (emitAsync env_mixed registry_ex order_ev options_guarded [])) =
     [(Timeout, ''order'', 0), (Thrown ''boom'', ''order'', 1), (Aborted, ''order'', 2)]"
proof -
  let ?snap = "snapshot registry_ex (trim (name order_ev))"
  have h1: "mode_of options_guarded = ''sequential''" by code_simp
  have h2: "\<not> stopOnError_of options_guarded" by code_simp
  have sr: "sink_returns env_mixed"
    by (simp add: sink_returns_def sink_throws_def env_mixed_def quiet_def)
  have "list_all (\<lambda>j. try_outcome env_mixed options_guarded (?snap ! j) j \<noteq> None)
          [0..<length ?snap]"
    by code_simp
  then have h3: "\<forall>j<length ?snap. try_outcome env_mixed options_guarded (?snap ! j) j \<noteq> None"
    by (rule list_all_upt)
  have e1: "?snap = [10, 20, 30]" by code_simp
  have e2: "(if onError env_mixed = None then []
             else async_failures env_mixed options_guarded (trim (name order_ev)) [10, 20, 30] 0) =
      [(Timeout, ''order'', 0), (Thrown ''boom'', ''order'', 1), (Aborted, ''order'', 2)]"
    by (simp add: env_mixed_def) code_simp
  show ?thesis
    using sequential_continues[OF h1 h2 sr h3, of "[]"] unfolding e1 e2 .
qed

text \<open>
  Claim C8 as it is stated does not hold of \<open>emitAsync\<close>. Outside sequential mode,
  when the promise of listener 10 rejects and the sink, called with that error, throws,
  the promise of that \<open>runOne\<close> call is rejected and \<open>Promise.all\<close> with it: the call is
  rejected with the sink's error while the outcome of listener 20 has not settled.
\<close>

theorem concurrent_rejects_when_sink_throws:
  "mode_of (options_ex (Some ''parallel'') None) \<noteq> ''sequential'' \<and>
   snapshot registry_ex (trim (name order_ev)) = [10, 20, 30] \<and>
   \<not> completed env_sink_later (options_ex (Some ''parallel'') None) [10, 20, 30] [0] 1 \<and>
   fst (emitAsync env_sink_later registry_ex order_ev (options_ex (Some ''parallel'') None) [0]) =
     Some (Rejected (Thrown ''sink''))"
  by code_simp

text \<open>
  Claim C8, amended: the sink, if one is set, returns from every call. Then outside
  sequential mode, after any sequence \<open>sched\<close> of settlements: the call is fulfilled if
  every \<open>runOne\<close> call has run to its end, and has not settled otherwise, so that it is
  never rejected; every handler of the snapshot has been started; the sink, if set, has
  been called exactly once for each failed outcome among the calls that ran to their
  end, with its position, and for nothing else; and \<open>stopOnError\<close> changes nothing.
\<close>

theorem concurrent_settles:
  assumes "mode_of opts \<noteq> ''sequential''" and "sink_returns env"
  shows "fst (emitAsync env m ev opts sched) =
           (if list_all (completed env opts (snapshot m (trim (name ev))) sched)
                 [0..<length (snapshot m (trim (name ev)))]
            then Some Fulfilled else None) \<and>
         invoked (snd (emitAsync env m ev opts sched)) = snapshot m (trim (name ev)) \<and>
         filter (\<lambda>r. snd (snd r) = j) (reports (snd (emitAsync env m ev opts sched))) =
           (if onError env \<noteq> None \<and> completed env opts (snapshot m (trim (name ev))) sched j
            then (case try_outcome env opts (snapshot m (trim (name ev)) ! j) j of
                    Some (Rejected e) \<Rightarrow> [(e, trim (name ev), j)]
                  | _ \<Rightarrow> [])
            else []) \<and>
         emitAsync env m ev (opts\<lparr> stopOnError := b \<rparr>) sched = emitAsync env m ev opts sched"
proof -
  let ?nm = "trim (name ev)"
  have cr: "\<forall>i e. caught env opts ?nm i e = Fulfilled"
    using assms(2,1) by (rule caught_concurrent)
  let ?c = "concurrent env opts ?nm (snapshot m ?nm) sched \<lparr> mgr = m, invoked = [], reports = [] \<rparr>"
  have e: "emitAsync env m ev opts sched = (joint ?c, dispatch.truncate ?c)"
    using assms(1) by (rule emitAsync_concurrent)
  have 1: "fst (emitAsync env m ev opts sched) =
           (if list_all (completed env opts (snapshot m ?nm) sched) [0..<length (snapshot m ?nm)]
            then Some Fulfilled else None)"
    unfolding e fst_conv by (rule concurrent_joint[OF cr])
  have 2: "invoked (snd (emitAsync env m ev opts sched)) = snapshot m ?nm"
    unfolding e snd_conv truncate_invoked concurrent_invoked by simp
  have 3: "filter (\<lambda>r. snd (snd r) = j) (reports (snd (emitAsync env m ev opts sched))) =
           (if onError env \<noteq> None \<and> completed env opts (snapshot m ?nm) sched j
            then (case try_outcome env opts (snapshot m ?nm ! j) j of
                    Some (Rejected e) \<Rightarrow> [(e, ?nm, j)]
                  | _ \<Rightarrow> [])
            else [])"
    unfolding e snd_conv truncate_reports concurrent_reports[OF cr] by simp
  have 4: "emitAsync env m ev (opts\<lparr> stopOnError := b \<rparr>) sched = emitAsync env m ev opts sched"
    using assms(1) by (rule emitAsync_stopOnError)
  from 1 2 3 4 show ?thesis by blast
qed

theorem concurrent_settles_witness:
  "fst (emitAsync env_boom registry_ex order_ev (options_ex (Some ''parallel'') (Some True)) [2, 1]) =
     None \<and>
   fst (emitAsync env_boom registry_ex order_ev (options_ex (Some ''parallel'') (Some True)) [2, 1, 0]) =
     Some Fulfilled \<and>
   invoked (snd (emitAsync env_boom registry_ex order_ev (options_ex (Some ''parallel'') (Some True)) [2, 1])) =
     [10, 20, 30] \<and>
   filter (\<lambda>r. snd (snd r) = 1)
     (reports (snd (emitAsync env_boom registry_ex order_ev (options_ex (Some ''parallel'') (Some True)) [2, 1]))) =
     [(Thrown ''boom'', ''order'', 1)]"
proof -
  let ?opts = "options_ex (Some ''parallel'') (Some True)"
  let ?snap = "snapshot registry_ex (trim (name order_ev))"
  have h: "mode_of ?opts \<noteq> ''sequential''" by code_simp
  have sr: "sink_returns env_boom"
    by (simp add: sink_returns_def sink_throws_def env_boom_def quiet_def)
  have e: "?snap = [10, 20, 30]" by code_simp
  have c1: "(if list_all (completed env_boom ?opts [10, 20, 30] [2, 1]) [0..<length [10, 20, 30 :: nat]]
             then Some Fulfilled else None) = None"
    by code_simp
  have c2: "(if list_all (completed env_boom ?opts [10, 20, 30] [2, 1, 0]) [0..<length [10, 20, 30 :: nat]]
             then Some Fulfilled else None) = Some Fulfilled"
    by code_simp
  have c3: "(if onError env_boom \<noteq> None \<and> completed env_boom ?opts [10, 20, 30] [2, 1] 1
             then (case try_outcome env_boom ?opts ([10, 20, 30] ! 1) 1 of
                     Some (Rejected e) \<Rightarrow> [(e, trim (name order_ev), 1::nat)]
                   | _ \<Rightarrow> [])
             else []) = [(Thrown ''boom'', ''order'', 1)]"
  proof -
    have "onError env_boom \<noteq> None" by (simp add: env_boom_def)
    moreover have "completed env_boom ?opts [10, 20, 30] [2, 1] 1" by code_simp
    moreover have "(case try_outcome env_boom ?opts ([10, 20, 30] ! 1) 1 of
                     Some (Rejected e) \<Rightarrow> [(e, trim (name order_ev), 1::nat)]
                   | _ \<Rightarrow> []) = [(Thrown ''boom'', ''order'', 1)]"
      by code_simp
    ultimately show ?thesis by simp
  qed
  show ?thesis
    using concurrent_settles[OF h sr, of registry_ex order_ev "[2, 1]" 1 None]
      concurrent_settles[OF h sr, of registry_ex order_ev "[2, 1, 0]" 1 None]
    unfolding e c1 c2 c3 by blast
qed

text \<open>
  Claim C10. When \<open>mode\<close> is absent or is the string \<open>sequential\<close>, \<open>emitAsync\<close> is the
  sequential loop over the snapshot. For every other string, \<open>parallel\<close> included, it
  is the concurrent dispatch: every handler of the snapshot is started before anything
  is awaited, the result is that of the joint wait, and \<open>stopOnError\<close> changes nothing.
\<close>

theorem mode_selection:
  "(mode opts = None \<or> mode opts = Some ''sequential'' \<longrightarrow>
      emitAsync env m ev opts sched =
        sequential env opts (trim (name ev)) (snapshot m (trim (name ev))) 0
          \<lparr> mgr = m, invoked = [], reports = [] \<rparr>) \<and>
   (\<forall>md. mode opts = Some md \<and> md \<noteq> ''sequential'' \<longrightarrow>
      emitAsync env m ev opts sched =
        (joint (concurrent env opts (trim (name ev)) (snapshot m (trim (name ev))) sched
                  \<lparr> mgr = m, invoked = [], reports = [] \<rparr>),
         dispatch.truncate
           (concurrent env opts (trim (name ev)) (snapshot m (trim (name ev))) sched
                  \<lparr> mgr = m, invoked = [], reports = [] \<rparr>)) \<and>
      invoked (snd (emitAsync env m ev opts [])) = snapshot m (trim (name ev)) \<and>
      emitAsync env m ev (opts\<lparr> stopOnError := b \<rparr>) sched = emitAsync env m ev opts sched)"
proof (intro conjI impI allI)
  assume "mode opts = None \<or> mode opts = Some ''sequential''"
  then have "mode_of opts = ''sequential''" by (auto simp: mode_of_def)
  then show "emitAsync env m ev opts sched =
        sequential env opts (trim (name ev)) (snapshot m (trim (name ev))) 0
          \<lparr> mgr = m, invoked = [], reports = [] \<rparr>"
    by (rule emitAsync_sequential)
next
  fix md assume "mode opts = Some md \<and> md \<noteq> ''sequential''"
  then have c: "mode_of opts \<noteq> ''sequential''" by (auto simp: mode_of_def)
  then show "emitAsync env m ev opts sched =
        (joint (concurrent env opts (trim (name ev)) (snapshot m (trim (name ev))) sched
                  \<lparr> mgr = m, invoked = [], reports = [] \<rparr>),
         dispatch.truncate
           (concurrent env opts (trim (name ev)) (snapshot m (trim (name ev))) sched
                  \<lparr> mgr = m, invoked = [], reports = [] \<rparr>))"
    by (rule emitAsync_concurrent)
  show "invoked (snd (emitAsync env m ev opts [])) = snapshot m (trim (name ev))"
    by (simp add: emitAsync_concurrent[OF c] truncate_invoked concurrent_invoked)
  show "emitAsync env m ev (opts\<lparr> stopOnError := b \<rparr>) sched = emitAsync env m ev opts sched"
    using c by (rule emitAsync_stopOnError)
qed

theorem mode_selection_witness:
  "invoked (snd (emitAsync env_boom registry_ex order_ev (options_ex (Some ''parallel'') (Some True)) [])) =
     [10, 20, 30] \<and>
   emitAsync env_boom registry_ex order_ev
     ((options_ex (Some ''parallel'') (Some True))\<lparr> stopOnError := None \<rparr>) [1, 0, 2] =
   emitAsync env_boom registry_ex order_ev (options_ex (Some ''parallel'') (Some True)) [1, 0, 2] \<and>
   emitAsync env_boom registry_ex order_ev (options_ex None (Some True)) [] =
     sequential env_boom (options_ex None (Some True)) (trim (name order_ev)) [10, 20, 30] 0
       \<lparr> mgr = registry_ex, invoked = [], reports = [] \<rparr>"
proof -
  let ?snap = "snapshot registry_ex (trim (name order_ev))"
  have e: "?snap = [10, 20, 30]" by code_simp
  have m1: "mode (options_ex (Some ''parallel'') (Some True)) = Some ''parallel'' \<and>
      ''parallel'' \<noteq> ''sequential''"
    by code_simp
  have m2: "mode (options_ex None (Some True)) = None \<or>
      mode (options_ex None (Some True)) = Some ''sequential''"
    by code_simp
  show ?thesis
    using mode_selection[of "options_ex (Some ''parallel'') (Some True)" env_boom registry_ex
        order_ev "[1, 0, 2]" None] m1
      mode_selection[of "options_ex None (Some True)" env_boom registry_ex order_ev "[]" None] m2
    unfolding e by blast
qed

end
